theory Spec2Isabelle
  imports Main "HOL-Library.Word"
begin

unbundle bit_operations_syntax

section \<open>Python values shared by both modules\<close>

text \<open>
  Bytes are 8-bit words; a \<^verbatim>\<open>bytes\<close> object, a \<^verbatim>\<open>bytearray\<close> and the
  contents of a memory-mapped file are byte lists. Every exception the modelled code can
  raise is a value of \<open>error\<close>, and a function that can raise returns \<open>error + 'a\<close>.
\<close>

type_synonym byte = "8 word"

datatype error =
    ValueError | IndexError | KeyError | TypeError | AttributeError | OverflowError
  | StructError | StopIteration | UnicodeDecodeError | FileNotFoundError | OSError
  | ZeroDivisionError | Unmodelled

definition bind_result :: "error + 'a \<Rightarrow> ('a \<Rightarrow> error + 'b) \<Rightarrow> error + 'b" where
  "bind_result m f = (case m of Inl e \<Rightarrow> Inl e | Inr x \<Rightarrow> f x)"

text \<open>\<^verbatim>\<open>int.from_bytes(bs, 'big')\<close> and \<^verbatim>\<open>n.to_bytes(k, 'big')\<close>.\<close>

definition from_bytes_big :: "byte list \<Rightarrow> nat" where
  "from_bytes_big bs = foldl (\<lambda>a b. a * 256 + unat b) 0 bs"

primrec big_endian :: "nat \<Rightarrow> nat \<Rightarrow> byte list" where
  "big_endian 0 v = []"
| "big_endian (Suc k) v = big_endian k (v div 256) @ [of_nat v]"

definition to_bytes_big :: "nat \<Rightarrow> int \<Rightarrow> error + byte list" where
  "to_bytes_big k v =
     (if v < 0 \<or> 256 ^ k \<le> v then Inl OverflowError else Inr (big_endian k (nat v)))"

section \<open>The memory-mapped region file (chunk.py)\<close>

text \<open>
  \<^verbatim>\<open>MCA[a:b]\<close>, \<^verbatim>\<open>MCA[a:]\<close> and \<^verbatim>\<open>MCA[i]\<close> on an \<^verbatim>\<open>mmap\<close> object, for the
  non-negative positions the code computes. Reading a slice clips it to the file; reading
  one byte out of range raises IndexError; assigning a slice needs data of exactly the
  clipped slice's length; assigning one byte needs a value in range(256);
  \<^verbatim>\<open>resize\<close> truncates the file or extends it with zero bytes.
\<close>

type_synonym mmap = "byte list"

definition get_slice :: "mmap \<Rightarrow> nat \<Rightarrow> nat \<Rightarrow> byte list" where
  "get_slice M a b = take (b - a) (drop a M)"

definition get_item :: "mmap \<Rightarrow> nat \<Rightarrow> error + nat" where
  "get_item M i = (if i < length M then Inr (unat (M ! i)) else Inl IndexError)"

definition set_slice :: "mmap \<Rightarrow> nat \<Rightarrow> nat \<Rightarrow> byte list \<Rightarrow> error + mmap" where
  "set_slice M a b data =
     (let a' = min a (length M); b' = max a' (min b (length M))
      in if length data \<noteq> b' - a' then Inl IndexError
         else Inr (take a' M @ data @ drop b' M))"

definition set_slice_from :: "mmap \<Rightarrow> nat \<Rightarrow> byte list \<Rightarrow> error + mmap" where
  "set_slice_from M a data = set_slice M a (length M) data"

definition set_item :: "mmap \<Rightarrow> nat \<Rightarrow> int \<Rightarrow> error + mmap" where
  "set_item M i v =
     (if length M \<le> i then Inl IndexError
      else if v < 0 \<or> 255 < v then Inl ValueError
      else Inr (M[i := of_int v]))"

definition resize :: "mmap \<Rightarrow> int \<Rightarrow> error + mmap" where
  "resize M newsize =
     (if newsize < 0 then Inl ValueError
      else if newsize = 0 then Inl OSError
      else Inr (take (nat newsize) M @ replicate (nat newsize - length M) 0))"

text \<open>
  \<^verbatim>\<open>header = (4 * (xPos + zPos * 32)) % 1024\<close>, the position both \<^verbatim>\<open>Chunk.open\<close>
  and \<^verbatim>\<open>Chunk.write\<close> compute for the location entry of chunk \<open>(xPos, zPos)\<close>.
  Python's \<^verbatim>\<open>%\<close> has the sign of the divisor, as \<open>mod\<close> on \<open>int\<close>.
\<close>

definition header :: "int \<Rightarrow> int \<Rightarrow> nat" where
  "header chunkX chunkZ = nat ((4 * (chunkX + chunkZ * 32)) mod 1024)"

text \<open>
  Location entry \<open>i\<close> of the first header table: its 3-byte big-endian sector offset
  and its 1-byte sector count, as the code reads them
  (\<^verbatim>\<open>int.from_bytes(MCA[i*4 : i*4+3], 'big')\<close> and \<^verbatim>\<open>MCA[i*4+3]\<close>).
\<close>

definition entry_offset :: "mmap \<Rightarrow> nat \<Rightarrow> nat" where
  "entry_offset MCA i = from_bytes_big (get_slice MCA (i * 4) (i * 4 + 3))"

definition entry_count :: "mmap \<Rightarrow> nat \<Rightarrow> error + nat" where
  "entry_count MCA i = get_item MCA (i * 4 + 3)"

text \<open>
  The part of \<^verbatim>\<open>Chunk.open\<close> that reads the mapped file: it returns the timestamp, the
  compression scheme byte and the compressed chunk data, or raises FileNotFoundError.
  Note that \<open>offset\<close> is already multiplied by 4096 when it is compared with 2.
  Mapping an empty file raises ValueError.
\<close>

definition Chunk_open :: "int \<Rightarrow> int \<Rightarrow> mmap \<Rightarrow> error + (nat \<times> nat \<times> byte list)" where
  "Chunk_open chunkX chunkZ MCA =
     (if MCA = [] then Inl ValueError
      else
        let hdr = header chunkX chunkZ;
            offset = 4096 * from_bytes_big (get_slice MCA hdr (hdr + 3))
        in bind_result (get_item MCA (hdr + 3)) (\<lambda>sectorCount.
           let timestamp = from_bytes_big (get_slice MCA (hdr + 4096) (hdr + 4100))
           in if sectorCount > 0 \<and> offset \<ge> 2 then
                (let len = from_bytes_big (get_slice MCA offset (offset + 4))
                 in bind_result (get_item MCA (offset + 4)) (\<lambda>compression.
                    Inr (timestamp, compression, get_slice MCA (offset + 5) (offset + len + 4))))
              else Inl FileNotFoundError))"

text \<open>
  \<^verbatim>\<open>Chunk.write\<close>, in the order of the source. The pieces:
  the free offset \<^verbatim>\<open>max(2, *[offset_i + count_i for i in range(1024)])\<close>;
  the loop that changes the offsets of the following chunks;
  the block that moves the following chunks.
\<close>

primrec entry_ends :: "mmap \<Rightarrow> nat list \<Rightarrow> error + nat list" where
  "entry_ends MCA [] = Inr []"
| "entry_ends MCA (i # is) =
     bind_result (get_item MCA (i * 4 + 3)) (\<lambda>c.
     bind_result (entry_ends MCA is) (\<lambda>es.
       Inr ((from_bytes_big (get_slice MCA (i * 4) (i * 4 + 3)) + c) # es)))"

definition free_offset :: "mmap \<Rightarrow> error + nat" where
  "free_offset MCA = bind_result (entry_ends MCA [0..<1024]) (\<lambda>es. Inr (fold max es 2))"

primrec change_offsets :: "nat \<Rightarrow> int \<Rightarrow> nat list \<Rightarrow> mmap \<Rightarrow> error + mmap" where
  "change_offsets offset sectorChange [] MCA = Inr MCA"
| "change_offsets offset sectorChange (i # is) MCA =
     (let oldOffset = from_bytes_big (get_slice MCA (i * 4) (i * 4 + 3))
      in if oldOffset > offset then
           bind_result (to_bytes_big 3 (int oldOffset + sectorChange)) (\<lambda>bs.
           bind_result (set_slice MCA (i * 4) (i * 4 + 3) bs)
             (change_offsets offset sectorChange is))
         else change_offsets offset sectorChange is MCA)"

definition move_following :: "nat \<Rightarrow> nat \<Rightarrow> int \<Rightarrow> mmap \<Rightarrow> error + mmap" where
  "move_following offset oldSectorCount sectorChange MCA =
     (let oldStart = 4096 * (offset + oldSectorCount);
          newStart = nat (int oldStart + 4096 * sectorChange);
          data = drop oldStart MCA
      in bind_result (resize MCA (int (length MCA) + sectorChange * 4096)) (\<lambda>MCA'.
         set_slice_from MCA' newStart data))"

definition shift_following :: "nat \<Rightarrow> nat \<Rightarrow> int \<Rightarrow> mmap \<Rightarrow> error + mmap" where
  "shift_following offset oldSectorCount sectorChange MCA =
     bind_result (change_offsets offset sectorChange [0..<1024] MCA)
       (move_following offset oldSectorCount sectorChange)"

definition choose_offset :: "mmap \<Rightarrow> nat \<Rightarrow> error + (nat \<times> nat)" where
  "choose_offset MCA hdr =
     (let offset = from_bytes_big (get_slice MCA hdr (hdr + 3))
      in if offset = 0 then bind_result (free_offset MCA) (\<lambda>offset'. Inr (offset', 2))
         else bind_result (get_item MCA (4096 * offset + 4)) (\<lambda>compression.
              Inr (offset, compression)))"

definition write_header :: "nat \<Rightarrow> nat \<Rightarrow> nat \<Rightarrow> int \<Rightarrow> mmap \<Rightarrow> error + mmap" where
  "write_header hdr offset newSectorCount timestamp MCA =
     bind_result (to_bytes_big 3 (int offset)) (\<lambda>bs.
     bind_result (set_slice MCA hdr (hdr + 3) bs) (\<lambda>MCA1.
     bind_result (set_item MCA1 (hdr + 3) (int newSectorCount)) (\<lambda>MCA2.
     bind_result (to_bytes_big 4 timestamp) (\<lambda>ts.
       set_slice MCA2 (hdr + 4096) (hdr + 4100) ts))))"

definition write_data :: "nat \<Rightarrow> nat \<Rightarrow> nat \<Rightarrow> byte list \<Rightarrow> mmap \<Rightarrow> error + mmap" where
  "write_data offset len compression chunkData MCA =
     (let off = offset * 4096
      in bind_result (to_bytes_big 4 (int len)) (\<lambda>bs.
         bind_result (set_slice MCA off (off + 4) bs) (\<lambda>MCA1.
         bind_result (set_item MCA1 (off + 4) (int compression)) (\<lambda>MCA2.
           set_slice MCA2 (off + 5) (off + len + 4) chunkData))))"

text \<open>
  The arguments stand for what the method reads from its object and its environment:
  \<open>compress\<close> is the imported codec, \<open>closed\<close> the flag \<^verbatim>\<open>self.closed\<close>, \<open>xPos\<close> and
  \<open>zPos\<close> the chunk coordinates, \<open>payload\<close> the bytes \<^verbatim>\<open>self.to_bytes()\<close>, \<open>now\<close> the
  clock \<^verbatim>\<open>int(time.time())\<close>, and the file is \<open>None\<close> when it does not exist yet.
\<close>

definition create_missing :: "mmap option \<Rightarrow> mmap" where
  "create_missing file = (case file of None \<Rightarrow> replicate 8192 0 | Some f \<Rightarrow> f)"

definition Chunk_write ::
  "(byte list \<Rightarrow> nat \<Rightarrow> error + byte list) \<Rightarrow> bool \<Rightarrow> int \<Rightarrow> int \<Rightarrow> byte list \<Rightarrow> int
     \<Rightarrow> mmap option \<Rightarrow> error + mmap" where
  "Chunk_write compress closed xPos zPos payload now file =
     (if closed then Inl ValueError
      else
        let MCA = create_missing file;
            hdr = header xPos zPos
        in if MCA = [] then Inl ValueError
           else
             bind_result (choose_offset MCA hdr) (\<lambda>(offset, compression).
             bind_result (compress payload compression) (\<lambda>chunkData.
             let len = length chunkData + 1
             in bind_result (get_item MCA (hdr + 3)) (\<lambda>oldSectorCount.
                let newSectorCount = 1 + len div 4096;
                    sectorChange = int newSectorCount - int oldSectorCount
                in bind_result
                     (if sectorChange \<noteq> 0
                      then shift_following offset oldSectorCount sectorChange MCA
                      else Inr MCA) (\<lambda>MCA1.
                   bind_result (write_header hdr offset newSectorCount now MCA1)
                     (write_data offset len compression chunkData))))))"

text \<open>
  For stating the allocation rule: the sector just past location entry \<open>i\<close>
  (\<^verbatim>\<open>entry.offset + entry.sectorCount\<close>), and the highest such sector over the 1024
  entries, but at least 2.
\<close>

definition sector_end :: "mmap \<Rightarrow> nat \<Rightarrow> nat" where
  "sector_end MCA i =
     entry_offset MCA i + (case entry_count MCA i of Inl e \<Rightarrow> 0 | Inr c \<Rightarrow> c)"

definition highest_end :: "mmap \<Rightarrow> nat" where
  "highest_end MCA = Max (insert 2 (sector_end MCA ` {0..<1024}))"

text \<open>
  A codec that stores the bytes as they are (scheme 3 of the region format), and a region
  file holding two one-sector chunks: chunk (0,0) at sector 2 and chunk (1,0) at sector 3.
  They are the concrete inputs on which the theorems about \<^verbatim>\<open>Chunk.write\<close> are
  instantiated.
\<close>

definition no_compression :: "byte list \<Rightarrow> nat \<Rightarrow> error + byte list" where
  "no_compression data scheme = Inr data"

definition two_chunk_region :: mmap where
  "two_chunk_region =
     [0, 0, 2, 1, 0, 0, 3, 1] @ replicate 8184 0
     @ ([0, 0, 0, 2, 2, 7] @ replicate 4090 0)
     @ ([0, 0, 0, 2, 2, 9] @ replicate 4090 0)"

section \<open>The tag classes (nbt.py)\<close>

text \<open>
  The concrete tag classes, and a tag object of each. A numeric tag is its attribute
  \<^verbatim>\<open>_value\<close>, the packed bytes, which is a word of the class's width; \<^verbatim>\<open>.value\<close>
  reads it signed (unsigned for TAG_Byte, whose format is \<^verbatim>\<open>'B'\<close>) and
  \<^verbatim>\<open>.unsigned\<close> reads it unsigned. A Float or Double is kept as its IEEE bit pattern.
  A Python \<^verbatim>\<open>str\<close> is the list of its UTF-8 code units, so that \<^verbatim>\<open>str.encode\<close>
  keeps the characters and \<^verbatim>\<open>bytes.decode\<close> checks that they are well-formed UTF-8.
  A \<^verbatim>\<open>dict\<close> is an association list in insertion order. The elements of a
  sequence tag are tags.
\<close>

datatype tag_class =
    cls_End | cls_Byte | cls_Short | cls_Int | cls_Long | cls_Float | cls_Double
  | cls_Byte_Array | cls_String | cls_List | cls_Compound | cls_Int_Array | cls_Long_Array

datatype tag =
    TAG_End
  | TAG_Byte "8 word"
  | TAG_Short "16 word"
  | TAG_Int "32 word"
  | TAG_Long "64 word"
  | TAG_Float "32 word"
  | TAG_Double "64 word"
  | TAG_Byte_Array "tag list"
  | TAG_String string
  | TAG_List "tag list"
  | TAG_Compound "(string \<times> tag) list"
  | TAG_Int_Array "tag list"
  | TAG_Long_Array "tag list"

fun type_of :: "tag \<Rightarrow> tag_class" where
  "type_of TAG_End = cls_End"
| "type_of (TAG_Byte w) = cls_Byte"
| "type_of (TAG_Short w) = cls_Short"
| "type_of (TAG_Int w) = cls_Int"
| "type_of (TAG_Long w) = cls_Long"
| "type_of (TAG_Float w) = cls_Float"
| "type_of (TAG_Double w) = cls_Double"
| "type_of (TAG_Byte_Array xs) = cls_Byte_Array"
| "type_of (TAG_String s) = cls_String"
| "type_of (TAG_List xs) = cls_List"
| "type_of (TAG_Compound d) = cls_Compound"
| "type_of (TAG_Int_Array xs) = cls_Int_Array"
| "type_of (TAG_Long_Array xs) = cls_Long_Array"

text \<open>The class attribute \<^verbatim>\<open>ID\<close>, and \<^verbatim>\<open>TAG.from_ID\<close>, which indexes the list of
  the classes sorted by ID.\<close>

fun ID :: "tag_class \<Rightarrow> nat" where
  "ID cls_End = 0" | "ID cls_Byte = 1" | "ID cls_Short = 2" | "ID cls_Int = 3"
| "ID cls_Long = 4" | "ID cls_Float = 5" | "ID cls_Double = 6" | "ID cls_Byte_Array = 7"
| "ID cls_String = 8" | "ID cls_List = 9" | "ID cls_Compound = 10" | "ID cls_Int_Array = 11"
| "ID cls_Long_Array = 12"

definition IDtable :: "tag_class list" where
  "IDtable = [cls_End, cls_Byte, cls_Short, cls_Int, cls_Long, cls_Float, cls_Double,
     cls_Byte_Array, cls_String, cls_List, cls_Compound, cls_Int_Array, cls_Long_Array]"

definition from_ID :: "nat \<Rightarrow> error + tag_class" where
  "from_ID n = (if n < length IDtable then Inr (IDtable ! n) else Inl IndexError)"

subsection \<open>Numeric tags\<close>

definition is_integer :: "tag_class \<Rightarrow> bool" where
  "is_integer cls \<longleftrightarrow> cls \<in> {cls_Byte, cls_Short, cls_Int, cls_Long}"

definition is_decimal :: "tag_class \<Rightarrow> bool" where
  "is_decimal cls \<longleftrightarrow> cls \<in> {cls_Float, cls_Double}"

definition is_sequence :: "tag_class \<Rightarrow> bool" where
  "is_sequence cls \<longleftrightarrow> cls \<in> {cls_List, cls_Byte_Array, cls_Int_Array, cls_Long_Array}"

text \<open>\<^verbatim>\<open>len(cls())\<close>: the byte width of a numeric class.\<close>

fun width :: "tag_class \<Rightarrow> nat" where
  "width cls_Byte = 1" | "width cls_Short = 2" | "width cls_Int = 4" | "width cls_Long = 8"
| "width cls_Float = 4" | "width cls_Double = 8" | "width _ = 0"

text \<open>
  \<^verbatim>\<open>struct.pack(fmt, int)\<close> as run by the value setter of an integer class, which
  raises \<^verbatim>\<open>struct.error\<close> outside the format's range; the formats are
  \<^verbatim>\<open>'B'\<close>, \<^verbatim>\<open>'>h'\<close>, \<^verbatim>\<open>'>i'\<close> and \<^verbatim>\<open>'>q'\<close>.
\<close>

definition pack_int :: "tag_class \<Rightarrow> int \<Rightarrow> error + tag" where
  "pack_int cls v =
     (if cls = cls_Byte then
        (if 0 \<le> v \<and> v \<le> 255 then Inr (TAG_Byte (word_of_int v)) else Inl StructError)
      else if cls = cls_Short then
        (if - (2 ^ 15) \<le> v \<and> v < 2 ^ 15 then Inr (TAG_Short (word_of_int v)) else Inl StructError)
      else if cls = cls_Int then
        (if - (2 ^ 31) \<le> v \<and> v < 2 ^ 31 then Inr (TAG_Int (word_of_int v)) else Inl StructError)
      else if cls = cls_Long then
        (if - (2 ^ 63) \<le> v \<and> v < 2 ^ 63 then Inr (TAG_Long (word_of_int v)) else Inl StructError)
      else Inl TypeError)"

text \<open>\<^verbatim>\<open>int(tag)\<close>, which the wrapper \<^verbatim>\<open>__int__\<close> answers for the numeric classes
  with \<^verbatim>\<open>int(self.value)\<close>. Truncating an IEEE value is outside this model.\<close>

fun py_int :: "tag \<Rightarrow> error + int" where
  "py_int (TAG_Byte w) = Inr (uint w)"
| "py_int (TAG_Short w) = Inr (sint w)"
| "py_int (TAG_Int w) = Inr (sint w)"
| "py_int (TAG_Long w) = Inr (sint w)"
| "py_int (TAG_Float w) = Inl Unmodelled"
| "py_int (TAG_Double w) = Inl Unmodelled"
| "py_int _ = Inl TypeError"

text \<open>The property \<^verbatim>\<open>TAG_Integer.unsigned\<close>: the same bytes unpacked with the upper-case
  (unsigned) format. Other tags have no such attribute.\<close>

fun unsigned_value :: "tag \<Rightarrow> error + nat" where
  "unsigned_value (TAG_Byte w) = Inr (unat w)"
| "unsigned_value (TAG_Short w) = Inr (unat w)"
| "unsigned_value (TAG_Int w) = Inr (unat w)"
| "unsigned_value (TAG_Long w) = Inr (unat w)"
| "unsigned_value _ = Inl AttributeError"

text \<open>\<^verbatim>\<open>to_bytes\<close> of a numeric tag returns \<^verbatim>\<open>_value\<close>, big end first.\<close>

fun Number_to_bytes :: "tag \<Rightarrow> byte list" where
  "Number_to_bytes (TAG_Byte w) = big_endian 1 (unat w)"
| "Number_to_bytes (TAG_Short w) = big_endian 2 (unat w)"
| "Number_to_bytes (TAG_Int w) = big_endian 4 (unat w)"
| "Number_to_bytes (TAG_Long w) = big_endian 8 (unat w)"
| "Number_to_bytes (TAG_Float w) = big_endian 4 (unat w)"
| "Number_to_bytes (TAG_Double w) = big_endian 8 (unat w)"
| "Number_to_bytes _ = []"

text \<open>
  Modelled from the spec: \<^verbatim>\<open>util.read_bytes(iterable, n)\<close> is not among the sources.
  By the spec a reader consumes exactly the number of bytes it asks for, and
  \<^verbatim>\<open>TAG_Compound.from_bytes\<close> catches the StopIteration it raises when the data ends
  first. An iterator over bytes is the list of the bytes still to come. For a count that
  is not positive nothing is read.
\<close>

definition read_bytes :: "byte list \<Rightarrow> int \<Rightarrow> error + (byte list \<times> byte list)" where
  "read_bytes it n =
     (if int (length it) < n then Inl StopIteration
      else Inr (take (nat n) it, drop (nat n) it))"

text \<open>
  \<^verbatim>\<open>TAG_Number.from_bytes\<close>: read the width of the class, unpack, and build the tag
  from the unpacked value, which packs it again. For Float and Double, unpacking and
  packing an IEEE value gives the bytes back, with one exception: a Float is unpacked to
  a Python \<^verbatim>\<open>float\<close>, a double, and that conversion turns a signalling NaN into a
  quiet one by setting the top bit of its mantissa. A NaN has all exponent bits set and
  a mantissa that is not zero.
\<close>

definition Float_nan :: "32 word \<Rightarrow> bool" where
  "Float_nan w \<longleftrightarrow> (unat w div 2 ^ 23) mod 2 ^ 8 = 2 ^ 8 - 1 \<and> unat w mod 2 ^ 23 \<noteq> 0"

definition Double_nan :: "64 word \<Rightarrow> bool" where
  "Double_nan w \<longleftrightarrow> (unat w div 2 ^ 52) mod 2 ^ 11 = 2 ^ 11 - 1 \<and> unat w mod 2 ^ 52 \<noteq> 0"

definition quiet :: "32 word \<Rightarrow> 32 word" where
  "quiet w = (if Float_nan w then w OR 0x00400000 else w)"

definition unpack_int :: "tag_class \<Rightarrow> byte list \<Rightarrow> int" where
  "unpack_int cls bs =
     (let n = int (from_bytes_big bs)
      in if cls = cls_Byte \<or> n < 2 ^ (8 * length bs - 1) then n else n - 2 ^ (8 * length bs))"

definition Number_from_bytes :: "tag_class \<Rightarrow> byte list \<Rightarrow> error + (tag \<times> byte list)" where
  "Number_from_bytes cls it =
     bind_result (read_bytes it (int (width cls))) (\<lambda>(byteValue, it').
       if cls = cls_Float then Inr (TAG_Float (quiet (of_nat (from_bytes_big byteValue))), it')
       else if cls = cls_Double then Inr (TAG_Double (of_nat (from_bytes_big byteValue)), it')
       else bind_result (pack_int cls (unpack_int cls byteValue)) (\<lambda>t. Inr (t, it')))"

subsection \<open>TAG_String\<close>

text \<open>
  \<^verbatim>\<open>str.encode\<close> and \<^verbatim>\<open>bytes.decode(encoding='utf-8')\<close>. The decoder accepts
  the well-formed sequences of the standard: no overlong forms, no surrogates, nothing
  above U+10FFFF.
\<close>

definition str_encode :: "string \<Rightarrow> byte list" where
  "str_encode s = map (\<lambda>c. of_nat (of_char c)) s"

definition continuation :: "byte \<Rightarrow> bool" where
  "continuation b \<longleftrightarrow> 0x80 \<le> b \<and> b \<le> 0xBF"

fun valid_utf8 :: "byte list \<Rightarrow> bool" where
  "valid_utf8 [] = True"
| "valid_utf8 (b # bs) =
     (if b < 0x80 then valid_utf8 bs
      else if 0xC2 \<le> b \<and> b \<le> 0xDF then
        (case bs of c1 # r \<Rightarrow> continuation c1 \<and> valid_utf8 r | _ \<Rightarrow> False)
      else if 0xE0 \<le> b \<and> b \<le> 0xEF then
        (case bs of c1 # c2 # r \<Rightarrow>
           (if b = 0xE0 then 0xA0 \<le> c1 \<and> c1 \<le> 0xBF
            else if b = 0xED then 0x80 \<le> c1 \<and> c1 \<le> 0x9F
            else continuation c1)
           \<and> continuation c2 \<and> valid_utf8 r
         | _ \<Rightarrow> False)
      else if 0xF0 \<le> b \<and> b \<le> 0xF4 then
        (case bs of c1 # c2 # c3 # r \<Rightarrow>
           (if b = 0xF0 then 0x90 \<le> c1 \<and> c1 \<le> 0xBF
            else if b = 0xF4 then 0x80 \<le> c1 \<and> c1 \<le> 0x8F
            else continuation c1)
           \<and> continuation c2 \<and> continuation c3 \<and> valid_utf8 r
         | _ \<Rightarrow> False)
      else False)"

definition bytes_decode :: "byte list \<Rightarrow> error + string" where
  "bytes_decode bs =
     (if valid_utf8 bs then Inr (map (\<lambda>b. char_of (unat b)) bs) else Inl UnicodeDecodeError)"

text \<open>
  The value setter of TAG_String: \<^verbatim>\<open>_value = TAG_Short(len(encoded)).to_bytes() + encoded\<close>.
  It raises \<^verbatim>\<open>struct.error\<close> when the length does not fit TAG_Short, so a TAG_String
  of more than 32767 bytes is never built. \<^verbatim>\<open>to_bytes\<close> returns \<^verbatim>\<open>_value\<close>; for a
  string that no object can hold it reports the setter's error.
\<close>

definition String_init :: "string \<Rightarrow> error + tag" where
  "String_init s =
     bind_result (pack_int cls_Short (int (length (str_encode s)))) (\<lambda>l. Inr (TAG_String s))"

definition String_to_bytes :: "string \<Rightarrow> error + byte list" where
  "String_to_bytes s =
     bind_result (pack_int cls_Short (int (length (str_encode s)))) (\<lambda>l.
       Inr (Number_to_bytes l @ str_encode s))"

definition String_from_bytes :: "byte list \<Rightarrow> error + (tag \<times> byte list)" where
  "String_from_bytes it =
     bind_result (Number_from_bytes cls_Short it) (\<lambda>(byteLength, it1).
     bind_result (py_int byteLength) (\<lambda>n.
     bind_result (read_bytes it1 n) (\<lambda>(byteValue, it2).
     bind_result (bytes_decode byteValue) (\<lambda>s.
     bind_result (String_init s) (\<lambda>t. Inr (t, it2))))))"

subsection \<open>Sequence tags and TAG_Compound\<close>

text \<open>
  A sequence object is its class and its list \<^verbatim>\<open>.value\<close>. \<^verbatim>\<open>elementType\<close> is a
  class attribute of the three array classes and a property of TAG_List: the type of the
  first element, TAG_End for the empty list.
\<close>

fun items :: "tag \<Rightarrow> tag list option" where
  "items (TAG_List xs) = Some xs"
| "items (TAG_Byte_Array xs) = Some xs"
| "items (TAG_Int_Array xs) = Some xs"
| "items (TAG_Long_Array xs) = Some xs"
| "items _ = None"

definition make_sequence :: "tag_class \<Rightarrow> tag list \<Rightarrow> tag" where
  "make_sequence cls xs =
     (if cls = cls_Byte_Array then TAG_Byte_Array xs
      else if cls = cls_Int_Array then TAG_Int_Array xs
      else if cls = cls_Long_Array then TAG_Long_Array xs
      else TAG_List xs)"

definition elementType :: "tag_class \<Rightarrow> tag list \<Rightarrow> tag_class" where
  "elementType cls xs =
     (if cls = cls_Byte_Array then cls_Byte
      else if cls = cls_Int_Array then cls_Int
      else if cls = cls_Long_Array then cls_Long
      else (case xs of [] \<Rightarrow> cls_End | x # _ \<Rightarrow> type_of x))"

text \<open>
  \<^verbatim>\<open>cls(value)\<close> for a tag \<^verbatim>\<open>value\<close>: the constructors of the classes, which convert
  their argument.
  \<^item> TAG_End ignores it.
  \<^item> An integer class packs \<^verbatim>\<open>int(value)\<close>.
  \<^item> TAG_String, TAG_Float, TAG_Double and TAG_Compound copy a tag of their own class.
  \<^item> A sequence class appends the elements of a sequence tag one by one to an empty
    list (\<open>init_items\<close> is that loop of \<^verbatim>\<open>__init__\<close>, with the list built so far);
    appending converts to the element type, except into a TAG_List whose element type
    is still TAG_End.
  \<^item> A tag that Python cannot convert or iterate raises TypeError.
  The remaining conversions (between IEEE values and integers, to text, and iterating a
  string or the keys of a compound) are not part of this model and answer \<open>Unmodelled\<close>;
  no statement below rests on that answer.
\<close>

fun construct :: "tag_class \<Rightarrow> tag \<Rightarrow> error + tag"
  and init_items :: "tag_class \<Rightarrow> tag list \<Rightarrow> tag list \<Rightarrow> error + tag list" where
  "construct cls v =
     (if cls = cls_End then Inr TAG_End
      else if is_integer cls then bind_result (py_int v) (pack_int cls)
      else if is_sequence cls then
        (case v of
           TAG_List xs \<Rightarrow> map_sum id (make_sequence cls) (init_items cls [] xs)
         | TAG_Byte_Array xs \<Rightarrow> map_sum id (make_sequence cls) (init_items cls [] xs)
         | TAG_Int_Array xs \<Rightarrow> map_sum id (make_sequence cls) (init_items cls [] xs)
         | TAG_Long_Array xs \<Rightarrow> map_sum id (make_sequence cls) (init_items cls [] xs)
         | TAG_String s \<Rightarrow> Inl Unmodelled
         | TAG_Compound d \<Rightarrow> Inl Unmodelled
         | _ \<Rightarrow> Inl TypeError)
      else if cls = cls_String then
        (case v of TAG_String s \<Rightarrow> Inr (TAG_String s) | _ \<Rightarrow> Inl Unmodelled)
      else if cls = cls_Compound then
        (case v of
           TAG_Compound d \<Rightarrow> Inr (TAG_Compound d)
         | TAG_String s \<Rightarrow> Inl Unmodelled
         | TAG_List xs \<Rightarrow> Inl Unmodelled
         | TAG_Byte_Array xs \<Rightarrow> Inl Unmodelled
         | TAG_Int_Array xs \<Rightarrow> Inl Unmodelled
         | TAG_Long_Array xs \<Rightarrow> Inl Unmodelled
         | _ \<Rightarrow> Inl TypeError)
      else
        (case v of
           TAG_Float w \<Rightarrow> if cls = cls_Float then Inr (TAG_Float w) else Inl Unmodelled
         | TAG_Double w \<Rightarrow> if cls = cls_Double then Inr (TAG_Double w) else Inl Unmodelled
         | TAG_Byte w \<Rightarrow> Inl Unmodelled
         | TAG_Short w \<Rightarrow> Inl Unmodelled
         | TAG_Int w \<Rightarrow> Inl Unmodelled
         | TAG_Long w \<Rightarrow> Inl Unmodelled
         | _ \<Rightarrow> Inl TypeError))"
| "init_items cls acc [] = Inr acc"
| "init_items cls acc (x # xs) =
     (if cls = cls_List \<and> elementType cls acc = cls_End then init_items cls (acc @ [x]) xs
      else bind_result (construct (elementType cls acc) x) (\<lambda>y. init_items cls (acc @ [y]) xs))"

declare construct.simps [simp del]

text \<open>
  \<^verbatim>\<open>append\<close>: TAG_List.append stores a tag as it is while the element type is TAG_End
  and otherwise calls TAG_MutableSequence.append, which stores
  \<^verbatim>\<open>self.elementType(value)\<close>. Its last branch, for a value that is not a tag, cannot
  be reached here. A tag of another class has no such method.
\<close>

definition append_tag :: "tag \<Rightarrow> tag \<Rightarrow> error + tag" where
  "append_tag self v =
     (case items self of
        None \<Rightarrow> Inl AttributeError
      | Some xs \<Rightarrow>
          (let cls = type_of self
           in if cls = cls_List \<and> elementType cls xs = cls_End
              then Inr (make_sequence cls (xs @ [v]))
              else bind_result (construct (elementType cls xs) v) (\<lambda>y.
                     Inr (make_sequence cls (xs @ [y])))))"


text \<open>
  Python's list indexing and slicing for an integer key: a negative key counts from the
  end, a slice bound is clipped to the list, an index out of range raises IndexError.
\<close>

definition slice_bound :: "int \<Rightarrow> nat \<Rightarrow> nat" where
  "slice_bound key n = (if key < 0 then nat (int n + key) else min (nat key) n)"

definition list_index :: "int \<Rightarrow> nat \<Rightarrow> error + nat" where
  "list_index key n =
     (if 0 \<le> key \<and> key < int n then Inr (nat key)
      else if key < 0 \<and> - int n \<le> key then Inr (nat (int n + key))
      else Inl IndexError)"

text \<open>\<^verbatim>\<open>insert\<close>: \<^verbatim>\<open>self.value = self[:key] + [value] + self[key:]\<close>.\<close>

definition insert_tag :: "tag \<Rightarrow> int \<Rightarrow> tag \<Rightarrow> error + tag" where
  "insert_tag self key v =
     (case items self of
        None \<Rightarrow> Inl AttributeError
      | Some xs \<Rightarrow>
          Inr (make_sequence (type_of self)
                 (take (slice_bound key (length xs)) xs @ [v]
                  @ drop (slice_bound key (length xs)) xs)))"

text \<open>\<^verbatim>\<open>__setitem__\<close>: \<^verbatim>\<open>self.value[key] = self.elementType(value)\<close>.\<close>

definition setitem :: "tag \<Rightarrow> int \<Rightarrow> tag \<Rightarrow> error + tag" where
  "setitem self key v =
     (case items self of
        None \<Rightarrow> Inl AttributeError
      | Some xs \<Rightarrow>
          bind_result (construct (elementType (type_of self) xs) v) (\<lambda>y.
          bind_result (list_index key (length xs)) (\<lambda>i.
            Inr (make_sequence (type_of self) (xs[i := y])))))"

text \<open>
  A \<^verbatim>\<open>dict\<close>: item assignment replaces the value of a key in place or adds the key at
  the end; lookup of a missing key raises KeyError. Subscripting a tag with a text key
  looks it up in a compound and is a TypeError for every other tag.
\<close>

fun dict_set :: "(string \<times> tag) list \<Rightarrow> string \<Rightarrow> tag \<Rightarrow> (string \<times> tag) list" where
  "dict_set [] k v = [(k, v)]"
| "dict_set ((k', v') # d) k v = (if k' = k then (k, v) # d else (k', v') # dict_set d k v)"

definition getitem :: "tag \<Rightarrow> string \<Rightarrow> error + tag" where
  "getitem self key =
     (case self of
        TAG_Compound d \<Rightarrow> (case map_of d key of None \<Rightarrow> Inl KeyError | Some v \<Rightarrow> Inr v)
      | _ \<Rightarrow> Inl TypeError)"

subsection \<open>Encoding and decoding\<close>

text \<open>
  \<^verbatim>\<open>to_bytes\<close>. A sequence writes its length as a TAG_Int and then its elements, a
  list its element ID first; an element that is a compound is followed by the byte of
  TAG_End. A compound writes, for each entry, the ID of the value, the name as a
  TAG_String and the value, followed by the byte of TAG_End when the value is a compound;
  it writes no terminator of its own.
\<close>

fun to_bytes :: "tag \<Rightarrow> error + byte list"
  and elements_to_bytes :: "tag list \<Rightarrow> error + byte list"
  and entries_to_bytes :: "(string \<times> tag) list \<Rightarrow> error + byte list" where
  "to_bytes TAG_End = Inr [0]"
| "to_bytes (TAG_Byte w) = Inr (Number_to_bytes (TAG_Byte w))"
| "to_bytes (TAG_Short w) = Inr (Number_to_bytes (TAG_Short w))"
| "to_bytes (TAG_Int w) = Inr (Number_to_bytes (TAG_Int w))"
| "to_bytes (TAG_Long w) = Inr (Number_to_bytes (TAG_Long w))"
| "to_bytes (TAG_Float w) = Inr (Number_to_bytes (TAG_Float w))"
| "to_bytes (TAG_Double w) = Inr (Number_to_bytes (TAG_Double w))"
| "to_bytes (TAG_String s) = String_to_bytes s"
| "to_bytes (TAG_Byte_Array xs) =
     bind_result (pack_int cls_Int (int (length xs))) (\<lambda>n.
     bind_result (elements_to_bytes xs) (\<lambda>bs. Inr (Number_to_bytes n @ bs)))"
| "to_bytes (TAG_Int_Array xs) =
     bind_result (pack_int cls_Int (int (length xs))) (\<lambda>n.
     bind_result (elements_to_bytes xs) (\<lambda>bs. Inr (Number_to_bytes n @ bs)))"
| "to_bytes (TAG_Long_Array xs) =
     bind_result (pack_int cls_Int (int (length xs))) (\<lambda>n.
     bind_result (elements_to_bytes xs) (\<lambda>bs. Inr (Number_to_bytes n @ bs)))"
| "to_bytes (TAG_List xs) =
     bind_result (pack_int cls_Byte (int (ID (elementType cls_List xs)))) (\<lambda>e.
     bind_result (pack_int cls_Int (int (length xs))) (\<lambda>n.
     bind_result (elements_to_bytes xs) (\<lambda>bs.
       Inr (Number_to_bytes e @ Number_to_bytes n @ bs))))"
| "to_bytes (TAG_Compound d) = entries_to_bytes d"
| "elements_to_bytes [] = Inr []"
| "elements_to_bytes (x # xs) =
     bind_result (to_bytes x) (\<lambda>b.
     bind_result (elements_to_bytes xs) (\<lambda>bs.
       Inr (b @ (if type_of x = cls_Compound then [0] else []) @ bs)))"
| "entries_to_bytes [] = Inr []"
| "entries_to_bytes ((name, v) # d) =
     bind_result (pack_int cls_Byte (int (ID (type_of v)))) (\<lambda>e.
     bind_result (String_to_bytes name) (\<lambda>n.
     bind_result (to_bytes v) (\<lambda>b.
     bind_result (entries_to_bytes d) (\<lambda>bs.
       Inr (Number_to_bytes e @ n @ b @ (if type_of v = cls_Compound then [0] else []) @ bs)))))"

text \<open>
  \<^verbatim>\<open>from_bytes\<close> of every class, on a shared iterator; a result carries the bytes that
  are left. The recursion follows the nesting of the data, so the functions take fuel:
  one unit for each call and each turn of a loop, and \<open>None\<close> when it runs out
  (\<open>bind_fuel\<close> passes \<open>None\<close> and errors on).
  \<open>element_class\<close> and \<open>read_length\<close> are the reads that come before the elements of a
  sequence: the element ID of a list (an array has its class attribute) and the TAG_Int
  that \<^verbatim>\<open>range\<close> counts to. \<open>decode_items\<close> is the comprehension of
  \<^verbatim>\<open>decode_bytes\<close>, \<open>Compound_loop\<close> the \<^verbatim>\<open>while True\<close> of
  \<^verbatim>\<open>TAG_Compound.from_bytes\<close> with the dictionary built so far. TAG_End.from_bytes
  reads nothing.
\<close>

definition bind_fuel ::
  "(error + 'a) option \<Rightarrow> ('a \<Rightarrow> (error + 'b) option) \<Rightarrow> (error + 'b) option" where
  "bind_fuel m f = (case m of None \<Rightarrow> None | Some (Inl e) \<Rightarrow> Some (Inl e) | Some (Inr x) \<Rightarrow> f x)"

definition element_class :: "tag_class \<Rightarrow> byte list \<Rightarrow> error + (tag_class \<times> byte list)" where
  "element_class cls it =
     (if cls = cls_List
      then bind_result (Number_from_bytes cls_Byte it) (\<lambda>(b, it0).
           bind_result (py_int b) (\<lambda>i.
           bind_result (from_ID (nat i)) (\<lambda>ety. Inr (ety, it0))))
      else Inr (elementType cls [], it))"

definition read_length :: "byte list \<Rightarrow> error + (nat \<times> byte list)" where
  "read_length it =
     bind_result (Number_from_bytes cls_Int it) (\<lambda>(l, it1).
     bind_result (py_int l) (\<lambda>n. Inr (nat n, it1)))"

definition item_class :: "tag \<Rightarrow> error + tag_class" where
  "item_class b = bind_result (py_int b) (\<lambda>i. from_ID (nat i))"

definition text_of :: "tag \<Rightarrow> string" where
  "text_of name = (case name of TAG_String s \<Rightarrow> s | _ \<Rightarrow> [])"

fun from_bytes :: "nat \<Rightarrow> tag_class \<Rightarrow> byte list \<Rightarrow> (error + tag \<times> byte list) option"
  and decode_items ::
    "nat \<Rightarrow> tag_class \<Rightarrow> nat \<Rightarrow> byte list \<Rightarrow> (error + tag list \<times> byte list) option"
  and Compound_loop ::
    "nat \<Rightarrow> (string \<times> tag) list \<Rightarrow> byte list
       \<Rightarrow> (error + (string \<times> tag) list \<times> byte list) option" where
  "from_bytes 0 cls it = None"
| "from_bytes (Suc fuel) cls it =
     (if cls = cls_End then Some (Inr (TAG_End, it))
      else if is_integer cls \<or> is_decimal cls then Some (Number_from_bytes cls it)
      else if cls = cls_String then Some (String_from_bytes it)
      else if cls = cls_Compound then
        bind_fuel (Compound_loop fuel [] it) (\<lambda>(d, it'). Some (Inr (TAG_Compound d, it')))
      else
        bind_fuel (Some (element_class cls it)) (\<lambda>(ety, it0).
        bind_fuel (Some (read_length it0)) (\<lambda>(n, it1).
        bind_fuel (decode_items fuel ety n it1) (\<lambda>(xs, it2).
          Some (bind_result (init_items cls [] xs) (\<lambda>ys. Inr (make_sequence cls ys, it2)))))))"
| "decode_items 0 ety n it = None"
| "decode_items (Suc fuel) ety n it =
     (if n = 0 then Some (Inr ([], it))
      else
        bind_fuel (from_bytes fuel ety it) (\<lambda>(x, it1).
        bind_fuel (decode_items fuel ety (n - 1) it1) (\<lambda>(xs, it2).
          Some (Inr (x # xs, it2)))))"
| "Compound_loop 0 d it = None"
| "Compound_loop (Suc fuel) d it =
     (case Number_from_bytes cls_Byte it of
        Inl e \<Rightarrow> if e = StopIteration then Some (Inr (d, it)) else Some (Inl e)
      | Inr (b, it1) \<Rightarrow>
          bind_fuel (Some (item_class b)) (\<lambda>itemType.
            if itemType = cls_End then Some (Inr (d, it1))
            else
              bind_fuel (Some (String_from_bytes it1)) (\<lambda>(name, it2).
              bind_fuel (from_bytes fuel itemType it2) (\<lambda>(itemValue, it3).
                Compound_loop fuel (dict_set d (text_of name) itemValue) it3))))"

text \<open>
  The tags that the constructors and \<^verbatim>\<open>from_bytes\<close> build: a text fits its length
  prefix and is well-formed UTF-8; a sequence is shorter than \<open>2^31\<close>, the elements of an
  array have its element class, and the elements of a list have one class, which is not
  TAG_End; the names of a compound are distinct, and no value is a TAG_End (the class
  says of TAG_End: expect erratic behavior if inserted inside a compound). A Float or
  Double is not a NaN: Python's \<^verbatim>\<open>==\<close> is false on a NaN, and a signalling NaN of a
  Float does not keep its bytes. \<open>fuel_for\<close> is fuel enough to decode a tag.
\<close>

definition text_ok :: "string \<Rightarrow> bool" where
  "text_ok s \<longleftrightarrow> length s \<le> 32767 \<and> valid_utf8 (str_encode s)"


fun well_formed :: "tag \<Rightarrow> bool"
  and elements_ok :: "tag_class \<Rightarrow> tag list \<Rightarrow> bool"
  and entries_ok :: "(string \<times> tag) list \<Rightarrow> bool" where
  "well_formed TAG_End = True"
| "well_formed (TAG_Byte w) = True"
| "well_formed (TAG_Short w) = True"
| "well_formed (TAG_Int w) = True"
| "well_formed (TAG_Long w) = True"
| "well_formed (TAG_Float w) = (\<not> Float_nan w)"
| "well_formed (TAG_Double w) = (\<not> Double_nan w)"
| "well_formed (TAG_String s) = text_ok s"
| "well_formed (TAG_Byte_Array xs) = (length xs < 2 ^ 31 \<and> elements_ok cls_Byte xs)"
| "well_formed (TAG_Int_Array xs) = (length xs < 2 ^ 31 \<and> elements_ok cls_Int xs)"
| "well_formed (TAG_Long_Array xs) = (length xs < 2 ^ 31 \<and> elements_ok cls_Long xs)"
| "well_formed (TAG_List xs) =
     (length xs < 2 ^ 31 \<and> elements_ok (elementType cls_List xs) xs)"
| "well_formed (TAG_Compound d) = (distinct (map fst d) \<and> entries_ok d)"
| "elements_ok cls [] = True"
| "elements_ok cls (x # xs) =
     (type_of x = cls \<and> cls \<noteq> cls_End \<and> well_formed x \<and> elements_ok cls xs)"
| "entries_ok [] = True"
| "entries_ok ((name, v) # d) =
     (text_ok name \<and> type_of v \<noteq> cls_End \<and> well_formed v \<and> entries_ok d)"

fun fuel_for :: "tag \<Rightarrow> nat"
  and fuel_for_elements :: "tag list \<Rightarrow> nat"
  and fuel_for_entries :: "(string \<times> tag) list \<Rightarrow> nat" where
  "fuel_for (TAG_Byte_Array xs) = Suc (fuel_for_elements xs)"
| "fuel_for (TAG_Int_Array xs) = Suc (fuel_for_elements xs)"
| "fuel_for (TAG_Long_Array xs) = Suc (fuel_for_elements xs)"
| "fuel_for (TAG_List xs) = Suc (fuel_for_elements xs)"
| "fuel_for (TAG_Compound d) = Suc (fuel_for_entries d)"
| "fuel_for t = 1"
| "fuel_for_elements [] = 1"
| "fuel_for_elements (x # xs) = Suc (max (fuel_for x) (fuel_for_elements xs))"
| "fuel_for_entries [] = 1"
| "fuel_for_entries ((name, v) # d) = Suc (max (fuel_for v) (fuel_for_entries d))"

text \<open>
  A compound for the examples: a nested compound holding the largest TAG_Byte, a list,
  and the Double that is positive infinity, under names that are not in alphabetical
  order.
\<close>

definition nested_example :: tag where
  "nested_example = TAG_Compound
     [(''b'', TAG_Compound [(''Y'', TAG_Byte 255)]),
      (''a'', TAG_List [TAG_Short 1]),
      (''c'', TAG_Double 0x7FF0000000000000)]"

subsection \<open>The text form of a tag\<close>

text \<open>
  \<^verbatim>\<open>repr(tag)\<close>. \<^verbatim>\<open>TAG_Abstract.__repr__\<close> returns \<^verbatim>\<open>self.to_snbt()\<close>.
  \<^item> TAG_End gives the empty text.
  \<^item> \<^verbatim>\<open>TAG_Number.to_snbt\<close> is \<^verbatim>\<open>f'{self.value}{self.suffixes[0]}'\<close>. The
    numeric classes define an attribute \<^verbatim>\<open>suffix\<close>; none defines \<^verbatim>\<open>suffixes\<close>, so
    after reading the value the method raises AttributeError.
  \<^item> TAG_String gives the text between double quotes, each double quote of the text
    escaped with a backslash.
  \<^item> A sequence gives, between brackets, its prefix (\<^verbatim>\<open>B;\<close>, \<^verbatim>\<open>I;\<close>, \<^verbatim>\<open>L;\<close>,
    nothing for a list) and the \<^verbatim>\<open>repr\<close> of its elements joined by commas.
  \<^item> TAG_Compound has a \<^verbatim>\<open>__repr__\<close> of its own: between braces, for each entry the
    name, a colon and the \<^verbatim>\<open>repr\<close> of the value, joined by commas.
  The elements are converted in order, so the first one that raises ends the conversion.
\<close>

fun join_comma :: "string list \<Rightarrow> string" where
  "join_comma [] = []"
| "join_comma [r] = r"
| "join_comma (r # rs) = r @ '','' @ join_comma rs"

fun repr :: "tag \<Rightarrow> error + string"
  and elements_repr :: "tag list \<Rightarrow> error + string list"
  and entries_repr :: "(string \<times> tag) list \<Rightarrow> error + string list" where
  "repr TAG_End = Inr []"
| "repr (TAG_Byte w) = Inl AttributeError"
| "repr (TAG_Short w) = Inl AttributeError"
| "repr (TAG_Int w) = Inl AttributeError"
| "repr (TAG_Long w) = Inl AttributeError"
| "repr (TAG_Float w) = Inl AttributeError"
| "repr (TAG_Double w) = Inl AttributeError"
| "repr (TAG_String s) =
     Inr ([CHR 0x22]
          @ concat (map (\<lambda>c. if c = CHR 0x22 then [CHR 0x5C, CHR 0x22] else [c]) s)
          @ [CHR 0x22])"
| "repr (TAG_Byte_Array xs) =
     bind_result (elements_repr xs) (\<lambda>rs. Inr (''[B;'' @ join_comma rs @ '']''))"
| "repr (TAG_Int_Array xs) =
     bind_result (elements_repr xs) (\<lambda>rs. Inr (''[I;'' @ join_comma rs @ '']''))"
| "repr (TAG_Long_Array xs) =
     bind_result (elements_repr xs) (\<lambda>rs. Inr (''[L;'' @ join_comma rs @ '']''))"
| "repr (TAG_List xs) =
     bind_result (elements_repr xs) (\<lambda>rs. Inr (''['' @ join_comma rs @ '']''))"
| "repr (TAG_Compound d) =
     bind_result (entries_repr d) (\<lambda>rs. Inr (''{'' @ join_comma rs @ ''}''))"
| "elements_repr [] = Inr []"
| "elements_repr (x # xs) =
     bind_result (repr x) (\<lambda>r.
     bind_result (elements_repr xs) (\<lambda>rs. Inr (r # rs)))"
| "entries_repr [] = Inr []"
| "entries_repr ((name, v) # d) =
     bind_result (repr v) (\<lambda>r.
     bind_result (entries_repr d) (\<lambda>rs. Inr ((name @ '':'' @ r) # rs)))"

section \<open>Block lookup (chunk.py)\<close>

text \<open>
  What \<^verbatim>\<open>Chunk.get_block\<close> asks of the tags of a chunk. The chunk object forwards
  \<^verbatim>\<open>self[key]\<close> to its compound. The operations are modelled on the tags the chunk
  format puts in these places (compounds, lists, arrays, integers); where a tag of another
  class would take Python through \<^verbatim>\<open>float()\<close> or \<^verbatim>\<open>str()\<close>, the answer is
  \<open>Unmodelled\<close>.
  \<^item> \<^verbatim>\<open>int.bit_length()\<close>.
  \<^item> \<^verbatim>\<open>len(tag)\<close>: the number of elements or entries, the number of characters of a
    text, the byte width of a number.
  \<^item> \<^verbatim>\<open>for element in tag\<close>: the elements of a sequence; the keys of a compound and
    the characters of a text, which are \<^verbatim>\<open>str\<close> objects and stand here as TAG_Strings
    (subscripting either with a text key is a TypeError).
  \<^item> \<^verbatim>\<open>tag[index]\<close> for an index that is not negative.
  \<^item> \<^verbatim>\<open>tag == n\<close> for an integer \<open>n\<close>: \<^verbatim>\<open>self.value.__eq__(self.valueType(n))\<close>.
  \<^item> \<^verbatim>\<open>str(tag)\<close>, which \<^verbatim>\<open>print(tag)\<close> writes: TAG_String has a \<^verbatim>\<open>__str__\<close>
    that returns its text; every class but the numeric ones inherits
    \<^verbatim>\<open>object.__str__\<close>, which returns \<^verbatim>\<open>repr(tag)\<close>. The \<^verbatim>\<open>__str__\<close> of a
    number is a wrapper made by \<^verbatim>\<open>util.make_wrappers\<close>, which is not among the
    sources; for it the answer is \<open>Unmodelled\<close>.
\<close>

fun bit_length :: "nat \<Rightarrow> nat" where
  "bit_length n = (if n = 0 then 0 else Suc (bit_length (n div 2)))"

declare bit_length.simps [simp del]

fun py_len :: "tag \<Rightarrow> error + nat" where
  "py_len TAG_End = Inl TypeError"
| "py_len (TAG_String s) = Inr (length (filter (\<lambda>b. \<not> continuation b) (str_encode s)))"
| "py_len (TAG_Compound d) = Inr (length d)"
| "py_len (TAG_List xs) = Inr (length xs)"
| "py_len (TAG_Byte_Array xs) = Inr (length xs)"
| "py_len (TAG_Int_Array xs) = Inr (length xs)"
| "py_len (TAG_Long_Array xs) = Inr (length xs)"
| "py_len t = Inr (width (type_of t))"

fun py_iter :: "tag \<Rightarrow> error + tag list" where
  "py_iter (TAG_List xs) = Inr xs"
| "py_iter (TAG_Byte_Array xs) = Inr xs"
| "py_iter (TAG_Int_Array xs) = Inr xs"
| "py_iter (TAG_Long_Array xs) = Inr xs"
| "py_iter (TAG_Compound d) = Inr (map (\<lambda>(k, v). TAG_String k) d)"
| "py_iter (TAG_String s) = Inr (map (\<lambda>c. TAG_String [c]) s)"
| "py_iter _ = Inl TypeError"

fun index_tag :: "tag \<Rightarrow> nat \<Rightarrow> error + tag" where
  "index_tag (TAG_List xs) i = (if i < length xs then Inr (xs ! i) else Inl IndexError)"
| "index_tag (TAG_Byte_Array xs) i = (if i < length xs then Inr (xs ! i) else Inl IndexError)"
| "index_tag (TAG_Int_Array xs) i = (if i < length xs then Inr (xs ! i) else Inl IndexError)"
| "index_tag (TAG_Long_Array xs) i = (if i < length xs then Inr (xs ! i) else Inl IndexError)"
| "index_tag (TAG_Compound d) i = Inl KeyError"
| "index_tag (TAG_String s) i = Inl Unmodelled"
| "index_tag _ i = Inl TypeError"

fun equals_int :: "tag \<Rightarrow> int \<Rightarrow> error + bool" where
  "equals_int (TAG_Byte w) n = Inr (uint w = n)"
| "equals_int (TAG_Short w) n = Inr (sint w = n)"
| "equals_int (TAG_Int w) n = Inr (sint w = n)"
| "equals_int (TAG_Long w) n = Inr (sint w = n)"
| "equals_int (TAG_Float w) n = Inl Unmodelled"
| "equals_int (TAG_Double w) n = Inl Unmodelled"
| "equals_int (TAG_String s) n = Inl Unmodelled"
| "equals_int TAG_End n = Inl AttributeError"
| "equals_int _ n = Inl TypeError"

fun py_str :: "tag \<Rightarrow> error + string" where
  "py_str (TAG_String s) = Inr s"
| "py_str (TAG_Byte w) = Inl Unmodelled"
| "py_str (TAG_Short w) = Inl Unmodelled"
| "py_str (TAG_Int w) = Inl Unmodelled"
| "py_str (TAG_Long w) = Inl Unmodelled"
| "py_str (TAG_Float w) = Inl Unmodelled"
| "py_str (TAG_Double w) = Inl Unmodelled"
| "py_str t = repr t"

text \<open>
  Modelled from the spec: \<^verbatim>\<open>util.get_bits(num, start, end)\<close> is not among the sources.
  By the spec the window read for a block is the field of \<open>bitWidth\<close> bits that ends at
  bit \<open>64 - subIndex * bitWidth\<close>, big end first, of the unsigned 64-bit word, and block 0
  takes the top 4 bits of the first Long when the width is 4. So bits are numbered from
  the least significant one and the field is bits \<open>start\<close> to \<open>end - 1\<close>.
\<close>

definition get_bits :: "nat \<Rightarrow> nat \<Rightarrow> nat \<Rightarrow> nat" where
  "get_bits num start end = (num div 2 ^ start) mod 2 ^ (end - start)"

text \<open>
  \<^verbatim>\<open>Chunk.get_block\<close>. \<open>Sections\<close> is the expression
  \<^verbatim>\<open>self['']['Level']['Sections']\<close> as the \<^verbatim>\<open>for\<close> statement iterates it;
  \<open>find_section\<close> is the loop, with \<open>None\<close> for its \<^verbatim>\<open>else\<close> branch; only the
  KeyError of \<^verbatim>\<open>section['Palette']\<close> is caught. Of the two \<^verbatim>\<open>print\<close> calls,
  \<^verbatim>\<open>print(index)\<close> writes an \<^verbatim>\<open>int\<close> and cannot fail;
  \<^verbatim>\<open>print(section['BlockStates'])\<close> looks the entry up and converts the tag to
  text, and either step can raise. The text written is no part of the result.
\<close>

definition air :: tag where
  "air = TAG_Compound [(''Name'', TAG_String ''minecraft:air'')]"

definition Sections :: "tag \<Rightarrow> error + tag list" where
  "Sections self =
     bind_result (getitem self '''') (\<lambda>root.
     bind_result (getitem root ''Level'') (\<lambda>level.
     bind_result (getitem level ''Sections'') py_iter))"

fun find_section :: "tag list \<Rightarrow> int \<Rightarrow> error + tag option" where
  "find_section [] sectionID = Inr None"
| "find_section (section # rest) sectionID =
     bind_result (getitem section ''Y'') (\<lambda>Y.
     bind_result (equals_int Y sectionID) (\<lambda>found.
       if found then Inr (Some section) else find_section rest sectionID))"

definition read_block :: "tag \<Rightarrow> nat \<Rightarrow> int \<Rightarrow> int \<Rightarrow> int \<Rightarrow> error + tag" where
  "read_block section paletteSize x y z =
     (let bitLen = max 4 (bit_length paletteSize);
          blocksPerEntry = 64 div bitLen
      in if blocksPerEntry = 0 then Inl ZeroDivisionError
         else
           let block = nat (y * 16 * 16 + z * 16 + x);
               index = block div blocksPerEntry;
               subIndex = block mod blocksPerEntry;
               lastBit = 64 - subIndex * bitLen
           in bind_result (getitem section ''BlockStates'') (\<lambda>printed.
              bind_result (py_str printed) (\<lambda>text.
              bind_result (getitem section ''BlockStates'') (\<lambda>states.
              bind_result (index_tag states index) (\<lambda>long.
              bind_result (unsigned_value long) (\<lambda>num.
              bind_result (getitem section ''Palette'') (\<lambda>palette.
                index_tag palette (get_bits num (lastBit - bitLen) lastBit))))))))"

definition get_block :: "tag \<Rightarrow> int \<Rightarrow> int \<Rightarrow> int \<Rightarrow> error + tag" where
  "get_block self x y z =
     (if \<not> (0 \<le> x \<and> x \<le> 15) \<or> \<not> (0 \<le> y \<and> y \<le> 255) \<or> \<not> (0 \<le> z \<and> z \<le> 15)
      then Inl IndexError
      else
        bind_result (Sections self) (\<lambda>sections.
        bind_result (find_section sections (y div 16)) (\<lambda>found.
          case found of
            None \<Rightarrow> Inr air
          | Some section \<Rightarrow>
              (case bind_result (getitem section ''Palette'') py_len of
                 Inl e \<Rightarrow> if e = KeyError then Inr air else Inl e
               | Inr paletteSize \<Rightarrow> read_block section paletteSize x (y mod 16) z))))"

text \<open>
  For the statements about the lookup: the section number of a section whose \<^verbatim>\<open>Y\<close>
  is an integer tag, and an example chunk with one section (number 0, a palette of three
  blocks, one packed Long).
\<close>

definition section_Y :: "tag \<Rightarrow> int option" where
  "section_Y section =
     (case getitem section ''Y'' of
        Inr (TAG_Byte w) \<Rightarrow> Some (uint w)
      | Inr (TAG_Short w) \<Rightarrow> Some (sint w)
      | Inr (TAG_Int w) \<Rightarrow> Some (sint w)
      | Inr (TAG_Long w) \<Rightarrow> Some (sint w)
      | _ \<Rightarrow> None)"

definition named_block :: "string \<Rightarrow> tag" where
  "named_block name = TAG_Compound [(''Name'', TAG_String name)]"

definition example_section :: tag where
  "example_section = TAG_Compound
     [(''Y'', TAG_Byte 0),
      (''Palette'', TAG_List [named_block ''minecraft:air'', named_block ''minecraft:stone'',
                              named_block ''minecraft:dirt'']),
      (''BlockStates'', TAG_Long_Array [TAG_Long 0x1234567890ABCDEF])]"

definition example_chunk :: "tag list \<Rightarrow> tag" where
  "example_chunk sections = TAG_Compound
     [('''', TAG_Compound [(''Level'', TAG_Compound [(''Sections'', TAG_List sections)])])]"

section \<open>Properties of the region file operations\<close>

lemma bind_result_simps [simp]:
  "bind_result (Inl e) f = Inl e"
  "bind_result (Inr x) f = f x"
  by (simp_all add: bind_result_def)

lemma bind_result_eq_Inr:
  "bind_result m f = Inr y \<longleftrightarrow> (\<exists>x. m = Inr x \<and> f x = Inr y)"
  by (cases m) simp_all

lemma length_big_endian [simp]: "length (big_endian k v) = k"
  by (induction k arbitrary: v) simp_all

lemma from_bytes_big_snoc:
  "from_bytes_big (bs @ [b]) = from_bytes_big bs * 256 + unat b"
  by (simp add: from_bytes_big_def)

lemma from_bytes_big_big_endian: "from_bytes_big (big_endian k v) = v mod 256 ^ k"
proof (induction k arbitrary: v)
  case 0
  show ?case by (simp add: from_bytes_big_def)
next
  case (Suc k)
  have "unat (of_nat v :: byte) = v mod 256"
    by (simp add: unat_of_nat)
  then have "from_bytes_big (big_endian (Suc k) v) = (v div 256) mod 256 ^ k * 256 + v mod 256"
    by (simp add: from_bytes_big_snoc Suc.IH)
  also have "\<dots> = v mod 256 ^ Suc k"
    by (simp add: mod_mult2_eq)
  finally show ?case .
qed

lemma set_slice_Inr:
  assumes "set_slice M a b data = Inr M'"
  shows "length M' = length M"
    and "\<And>p. p < a \<Longrightarrow> p < length M \<Longrightarrow> M' ! p = M ! p"
    and "\<And>p. a + length data \<le> p \<Longrightarrow> p < length M \<Longrightarrow> M' ! p = M ! p"
    and "\<And>j. j < length data \<Longrightarrow> M' ! (a + j) = data ! j"
    and "data \<noteq> [] \<Longrightarrow> a + length data \<le> length M \<and> a + length data \<le> b"
proof -
  define a' where "a' = min a (length M)"
  define b' where "b' = max a' (min b (length M))"
  from assms have len: "length data = b' - a'" and M': "M' = take a' M @ data @ drop b' M"
    by (auto simp: set_slice_def Let_def a'_def b'_def split: if_splits)
  have ab: "a' \<le> b'" "b' \<le> length M" "a' \<le> a"
    by (auto simp: a'_def b'_def)
  show "length M' = length M"
    using ab len by (simp add: M')
  show "M' ! p = M ! p" if "p < a" "p < length M" for p
    using that ab by (simp add: M' nth_append a'_def)
  show "M' ! p = M ! p" if "a + length data \<le> p" "p < length M" for p
  proof -
    have "a = a'" using that len ab by (auto simp: a'_def min_def)
    then have "b' \<le> p" using that len ab by simp
    then have "\<not> p < a'" "\<not> p - a' < length data" "b' + (p - a' - length data) = p"
      using ab len by auto
    then show ?thesis
      using ab len by (simp add: M' nth_append)
  qed
  show "M' ! (a + j) = data ! j" if "j < length data" for j
  proof -
    have "a = a'" using that len ab by (auto simp: a'_def b'_def min_def max_def split: if_splits)
    then show ?thesis using that ab by (simp add: M' nth_append)
  qed
  show "a + length data \<le> length M \<and> a + length data \<le> b" if "data \<noteq> []"
    using that len ab by (auto simp: a'_def b'_def min_def max_def split: if_splits)
qed


lemma slice_eqI:
  assumes "a + length data \<le> length M" "\<And>j. j < length data \<Longrightarrow> M ! (a + j) = data ! j"
  shows "get_slice M a (a + length data) = data"
  using assms by (intro nth_equalityI) (simp_all add: get_slice_def)

lemma slice_cong_nth:
  assumes "length M' = length M" "\<And>p. a \<le> p \<Longrightarrow> p < b \<Longrightarrow> p < length M \<Longrightarrow> M' ! p = M ! p"
  shows "get_slice M' a b = get_slice M a b"
proof (rule nth_equalityI)
  show "length (get_slice M' a b) = length (get_slice M a b)"
    using assms(1) by (simp add: get_slice_def)
  fix i assume "i < length (get_slice M' a b)"
  then have i: "i < b - a" "a + i < length M"
    using assms(1) by (auto simp: get_slice_def)
  then show "get_slice M' a b ! i = get_slice M a b ! i"
    using assms by (simp add: get_slice_def)
qed

lemma set_item_Inr:
  assumes "set_item M i v = Inr M'"
  shows "length M' = length M" "i < length M" "0 \<le> v" "v \<le> 255"
    and "M' = M[i := of_int v]"
  using assms by (auto simp: set_item_def split: if_splits)



lemma to_bytes_big_Inr:
  assumes "to_bytes_big k v = Inr bs"
  shows "0 \<le> v" "v < 256 ^ k" "bs = big_endian k (nat v)" "length bs = k"
  using assms by (auto simp: to_bytes_big_def split: if_splits)
lemma write_header_Inr:
  assumes "write_header hdr offset newSectorCount timestamp MCA = Inr M'"
  shows "length M' = length MCA"
    and "hdr + 4100 \<le> length MCA"
    and "newSectorCount \<le> 255"
    and "offset < 2 ^ 24"
    and "from_bytes_big (get_slice M' hdr (hdr + 3)) = offset"
    and "get_item M' (hdr + 3) = Inr newSectorCount"
    and "from_bytes_big (get_slice M' (hdr + 4096) (hdr + 4100)) = nat timestamp"
    and "\<And>p. p < length MCA \<Longrightarrow> p < hdr \<or> (hdr + 4 \<le> p \<and> p < hdr + 4096) \<or> hdr + 4100 \<le> p
           \<Longrightarrow> M' ! p = MCA ! p"
proof -
  from assms obtain bs M1 M2 ts where
    bs: "to_bytes_big 3 (int offset) = Inr bs"
    and M1: "set_slice MCA hdr (hdr + 3) bs = Inr M1"
    and M2: "set_item M1 (hdr + 3) (int newSectorCount) = Inr M2"
    and ts: "to_bytes_big 4 timestamp = Inr ts"
    and M': "set_slice M2 (hdr + 4096) (hdr + 4100) ts = Inr M'"
    by (auto simp: write_header_def bind_result_eq_Inr)
  note b = to_bytes_big_Inr [OF bs] and t = to_bytes_big_Inr [OF ts]
  note s1 = set_slice_Inr [OF M1] and i2 = set_item_Inr [OF M2] and s3 = set_slice_Inr [OF M']
  have ne: "bs \<noteq> []" "ts \<noteq> []"
    using b(4) t(4) by auto
  show len: "length M' = length MCA"
    using s1(1) i2(1) s3(1) by simp
  show bound: "hdr + 4100 \<le> length MCA"
    using s3(5) [OF ne(2)] t(4) i2(1) s1(1) by simp
  show "newSectorCount \<le> 255"
    using i2(4) by simp
  show off: "offset < 2 ^ 24"
    using b(2) by simp
  have nthM2: "M2 ! p = (if p = hdr + 3 then of_nat newSectorCount else M1 ! p)" if "p < length MCA" for p
    using that i2 s1(1) by (simp add: nth_list_update)
  have "get_slice M' hdr (hdr + length bs) = bs"
  proof (rule slice_eqI)
    show "hdr + length bs \<le> length M'"
      using bound len b(4) by simp
    fix j assume j: "j < length bs"
    then have "M' ! (hdr + j) = M2 ! (hdr + j)"
      using s3(2) [of "hdr + j"] b(4) bound i2(1) s1(1) by simp
    also have "\<dots> = M1 ! (hdr + j)"
      using j b(4) bound by (simp add: nthM2)
    also have "\<dots> = bs ! j"
      using s1(4) [OF j] .
    finally show "M' ! (hdr + j) = bs ! j" .
  qed
  then have "get_slice M' hdr (hdr + 3) = bs"
    by (simp only: b(4))
  then show "from_bytes_big (get_slice M' hdr (hdr + 3)) = offset"
    using b off by (simp add: from_bytes_big_big_endian)
  have "M' ! (hdr + 3) = M2 ! (hdr + 3)"
    using s3(2) [of "hdr + 3"] bound i2(1) s1(1) by simp
  also have "\<dots> = of_nat newSectorCount"
    using bound by (simp add: nthM2)
  finally show "get_item M' (hdr + 3) = Inr newSectorCount"
    using bound len i2(4) by (simp add: get_item_def unat_of_nat)
  have "get_slice M' (hdr + 4096) (hdr + 4096 + length ts) = ts"
    using s3(4) bound len t(4) by (intro slice_eqI) simp_all
  moreover have "hdr + 4096 + length ts = hdr + 4100"
    using t(4) by simp
  ultimately have "get_slice M' (hdr + 4096) (hdr + 4100) = ts"
    by (simp only:)
  then show "from_bytes_big (get_slice M' (hdr + 4096) (hdr + 4100)) = nat timestamp"
    using t by (simp add: from_bytes_big_big_endian nat_less_iff)
  show "M' ! p = MCA ! p"
    if "p < length MCA" "p < hdr \<or> (hdr + 4 \<le> p \<and> p < hdr + 4096) \<or> hdr + 4100 \<le> p" for p
  proof -
    have "M' ! p = M2 ! p"
      using that s3(2) [of p] s3(3) [of p] t(4) i2(1) s1(1) by auto
    also have "\<dots> = M1 ! p"
      using that by (auto simp: nthM2)
    also have "\<dots> = MCA ! p"
      using that s1(2) [of p] s1(3) [of p] b(4) by auto
    finally show ?thesis .
  qed
qed


lemma header_le: "header x z \<le> 1020"
proof -
  have "(4 * (x + z * 32)) mod 1024 = 4 * ((x + z * 32) mod 256)"
    by (simp add: mult_mod_right)
  moreover have "(x + z * 32) mod 256 < 256"
    by simp
  ultimately show ?thesis
    unfolding header_def by linarith
qed

lemma fold_max_ge: "a \<le> fold max es (a::nat)"
proof (induction es arbitrary: a)
  case Nil
  show ?case by simp
next
  case (Cons e es)
  have "a \<le> max e a" by simp
  also have "\<dots> \<le> fold max es (max e a)" by (rule Cons.IH)
  finally show ?case by simp
qed

lemma choose_offset_pos:
  assumes "choose_offset MCA hdr = Inr (offset, compression)"
  shows "1 \<le> offset"
proof (cases "from_bytes_big (get_slice MCA hdr (hdr + 3)) = 0")
  case True
  with assms obtain es where "offset = fold max es 2"
    by (auto simp: choose_offset_def free_offset_def bind_result_eq_Inr)
  then show ?thesis
    using fold_max_ge [of 2 es] by simp
next
  case False
  with assms show ?thesis
    by (auto simp: choose_offset_def Let_def bind_result_eq_Inr)
qed

lemma write_data_Inr:
  assumes "write_data offset (length chunkData + 1) compression chunkData MCA = Inr M'"
  shows "length M' = length MCA"
    and "offset * 4096 + 5 + length chunkData \<le> length MCA"
    and "from_bytes_big (get_slice M' (offset * 4096) (offset * 4096 + 4)) = length chunkData + 1"
    and "get_item M' (offset * 4096 + 4) = Inr compression"
    and "get_slice M' (offset * 4096 + 5) (offset * 4096 + (length chunkData + 1) + 4) = chunkData"
    and "\<And>p. p < length MCA \<Longrightarrow> p < offset * 4096 \<or> offset * 4096 + 5 + length chunkData \<le> p
           \<Longrightarrow> M' ! p = MCA ! p"
proof -
  define off where "off = offset * 4096"
  from assms obtain bs M1 M2 where
    bs: "to_bytes_big 4 (int (length chunkData + 1)) = Inr bs"
    and M1: "set_slice MCA off (off + 4) bs = Inr M1"
    and M2: "set_item M1 (off + 4) (int compression) = Inr M2"
    and M': "set_slice M2 (off + 5) (off + (length chunkData + 1) + 4) chunkData = Inr M'"
    by (auto simp: write_data_def bind_result_eq_Inr Let_def off_def)
  note b = to_bytes_big_Inr [OF bs]
  note s1 = set_slice_Inr [OF M1] and i2 = set_item_Inr [OF M2] and s3 = set_slice_Inr [OF M']
  have len12: "length M1 = length MCA" "length M2 = length MCA"
    using s1(1) i2(1) by simp_all
  show len: "length M' = length MCA"
    using s3(1) len12 by simp
  have b5: "off + 5 \<le> length MCA"
    using i2(2) len12 by simp
  have "off + 5 + length chunkData \<le> length MCA"
  proof (cases "chunkData = []")
    case True
    then show ?thesis using b5 by simp
  next
    case False
    from s3(5) [OF this] show ?thesis using len12 by simp
  qed
  then show bound: "offset * 4096 + 5 + length chunkData \<le> length MCA"
    by (simp add: off_def)
  have nthM2: "M2 ! p = (if p = off + 4 then of_nat compression else M1 ! p)" if "p < length MCA" for p
    using that i2 len12 by (simp add: nth_list_update)
  have "get_slice M' off (off + length bs) = bs"
  proof (rule slice_eqI)
    show "off + length bs \<le> length M'"
      using b5 len b(4) by simp
    fix j assume j: "j < length bs"
    then have "M' ! (off + j) = M2 ! (off + j)"
      using s3(2) [of "off + j"] b(4) b5 len12 by simp
    also have "\<dots> = M1 ! (off + j)"
      using j b(4) b5 by (simp add: nthM2)
    also have "\<dots> = bs ! j"
      using s1(4) [OF j] .
    finally show "M' ! (off + j) = bs ! j" .
  qed
  then have "get_slice M' off (off + 4) = bs"
    by (simp only: b(4))
  moreover have "length chunkData + 1 < 256 ^ 4"
    using b(2) by simp
  moreover have "nat (int (length chunkData + 1)) = length chunkData + 1"
    by (rule nat_int)
  ultimately have "from_bytes_big (get_slice M' off (off + 4)) = length chunkData + 1"
    using b(3) by (simp only: from_bytes_big_big_endian mod_less)
  then show "from_bytes_big (get_slice M' (offset * 4096) (offset * 4096 + 4)) = length chunkData + 1"
    by (simp only: off_def)
  have "M' ! (off + 4) = M2 ! (off + 4)"
    using s3(2) [of "off + 4"] b5 len12 by simp
  also have "\<dots> = of_nat compression"
    using b5 by (simp add: nthM2)
  finally show "get_item M' (offset * 4096 + 4) = Inr compression"
    using b5 len i2(4) by (simp add: get_item_def unat_of_nat off_def)
  have "get_slice M' (off + 5) (off + 5 + length chunkData) = chunkData"
    using s3(4) bound len by (intro slice_eqI) (simp_all add: off_def)
  moreover have "off + 5 + length chunkData = offset * 4096 + (length chunkData + 1) + 4"
    by (simp add: off_def)
  ultimately show "get_slice M' (offset * 4096 + 5) (offset * 4096 + (length chunkData + 1) + 4) = chunkData"
    by (simp only: off_def)
  show "M' ! p = MCA ! p"
    if "p < length MCA" "p < offset * 4096 \<or> offset * 4096 + 5 + length chunkData \<le> p" for p
  proof -
    have "M' ! p = M2 ! p"
      using that s3(2) [of p] s3(3) [of p] len12 by (auto simp: off_def)
    also have "\<dots> = M1 ! p"
      using that by (auto simp: nthM2 off_def)
    also have "\<dots> = MCA ! p"
      using that s1(2) [of p] s1(3) [of p] b(4) by (auto simp: off_def)
    finally show ?thesis .
  qed
qed



lemma entry_offset_cong:
  assumes "length M' = length M"
    and "\<And>p. i * 4 \<le> p \<Longrightarrow> p < i * 4 + 3 \<Longrightarrow> p < length M \<Longrightarrow> M' ! p = M ! p"
  shows "entry_offset M' i = entry_offset M i"
  unfolding entry_offset_def by (rule arg_cong [OF slice_cong_nth]) (use assms in auto)

lemma change_offsets_Inr:
  assumes "change_offsets offset ch is M = Inr M'" "distinct is"
  shows "length M' = length M
    \<and> (\<forall>p. p < length M \<longrightarrow> (\<forall>i\<in>set is. p < i * 4 \<or> i * 4 + 3 \<le> p) \<longrightarrow> M' ! p = M ! p)
    \<and> (\<forall>i\<in>set is. if entry_offset M i > offset
                    then int (entry_offset M' i) = int (entry_offset M i) + ch
                    else entry_offset M' i = entry_offset M i)"
  using assms
proof (induction "is" arbitrary: M)
  case Nil
  then show ?case by simp
next
  case (Cons i "is")
  obtain M1 where step: "change_offsets offset ch is M1 = Inr M'"
    and M1: "length M1 = length M"
      "\<And>p. p < length M \<Longrightarrow> p < i * 4 \<or> i * 4 + 3 \<le> p \<Longrightarrow> M1 ! p = M ! p"
      "if entry_offset M i > offset then int (entry_offset M1 i) = int (entry_offset M i) + ch
       else entry_offset M1 i = entry_offset M i"
  proof (cases "entry_offset M i > offset")
    case True
    with Cons.prems(1) obtain bs M1 where
      bs: "to_bytes_big 3 (int (entry_offset M i) + ch) = Inr bs"
      and s: "set_slice M (i * 4) (i * 4 + 3) bs = Inr M1"
      and step: "change_offsets offset ch is M1 = Inr M'"
      by (auto simp: entry_offset_def bind_result_eq_Inr)
    note b = to_bytes_big_Inr [OF bs] and s1 = set_slice_Inr [OF s]
    have "bs \<noteq> []"
      using b(4) by auto
    from s1(5) [OF this] have "i * 4 + length bs \<le> length M1"
      using s1(1) by simp
    then have "get_slice M1 (i * 4) (i * 4 + length bs) = bs"
      using s1(4) by (intro slice_eqI) simp_all
    then have "get_slice M1 (i * 4) (i * 4 + 3) = bs"
      by (simp only: b(4))
    then have "entry_offset M1 i = nat (int (entry_offset M i) + ch) mod 256 ^ 3"
      by (simp add: entry_offset_def from_bytes_big_big_endian b(3))
    also have "\<dots> = nat (int (entry_offset M i) + ch)"
      using b(1,2) by (simp add: nat_less_iff)
    finally have "int (entry_offset M1 i) = int (entry_offset M i) + ch"
      using b(1) by simp
    moreover have "M1 ! p = M ! p" if "p < length M" "p < i * 4 \<or> i * 4 + 3 \<le> p" for p
      using that s1(2) [of p] s1(3) [of p] b(4) by auto
    ultimately show thesis
      using True step s1(1) by (intro that [of M1]) simp_all
  next
    case False
    with Cons.prems(1) have "change_offsets offset ch is M = Inr M'"
      by (simp add: entry_offset_def)
    then show thesis
      using False by (intro that [of M]) simp_all
  qed
  from Cons.prems(2) have dist: "distinct is" "i \<notin> set is"
    by simp_all
  from Cons.IH [OF step dist(1)] have IH:
    "length M' = length M1"
    "\<And>p. p < length M1 \<Longrightarrow> (\<forall>j\<in>set is. p < j * 4 \<or> j * 4 + 3 \<le> p) \<Longrightarrow> M' ! p = M1 ! p"
    "\<And>j. j \<in> set is \<Longrightarrow> (if entry_offset M1 j > offset
           then int (entry_offset M' j) = int (entry_offset M1 j) + ch
           else entry_offset M' j = entry_offset M1 j)"
    by blast+
  have disj: "p < b * 4 \<or> b * 4 + 3 \<le> p" if "a * 4 \<le> p" "p < a * 4 + 3" "b \<noteq> a" for p a b :: nat
    using that by linarith
  have other: "entry_offset M1 j = entry_offset M j" if "j \<noteq> i" for j
  proof (rule entry_offset_cong [OF M1(1)])
    fix p assume "j * 4 \<le> p" "p < j * 4 + 3" "p < length M"
    then show "M1 ! p = M ! p"
      using M1(2) [of p] disj [of j p i] that by blast
  qed
  have self: "entry_offset M' i = entry_offset M1 i"
  proof (rule entry_offset_cong [OF IH(1)])
    fix p assume p: "i * 4 \<le> p" "p < i * 4 + 3" "p < length M1"
    show "M' ! p = M1 ! p"
    proof (rule IH(2) [OF p(3)], rule ballI)
      fix j assume "j \<in> set is"
      then have "j \<noteq> i" using dist(2) by auto
      from disj [OF p(1,2) this] show "p < j * 4 \<or> j * 4 + 3 \<le> p" .
    qed
  qed
  show ?case
  proof (intro conjI allI impI ballI)
    show "length M' = length M"
      using IH(1) M1(1) by simp
    fix p assume p: "p < length M" "\<forall>j\<in>set (i # is). p < j * 4 \<or> j * 4 + 3 \<le> p"
    then have "M' ! p = M1 ! p"
      using IH(2) [of p] M1(1) by simp
    then show "M' ! p = M ! p"
      using M1(2) [of p] p by simp
  next
    fix j assume j: "j \<in> set (i # is)"
    show "if entry_offset M j > offset then int (entry_offset M' j) = int (entry_offset M j) + ch
          else entry_offset M' j = entry_offset M j"
    proof (cases "j = i")
      case True
      then show ?thesis using M1(3) self by simp
    next
      case False
      then have "j \<in> set is" using j by simp
      from IH(3) [OF this] show ?thesis
        using other [OF False] by simp
    qed
  qed
qed

lemma Chunk_write_Inr:
  assumes "Chunk_write compress closed xPos zPos payload now file = Inr M'"
  obtains offset compression chunkData oldSectorCount MCA1 MCA2 where
    "\<not> closed"
    "choose_offset (create_missing file) (header xPos zPos) = Inr (offset, compression)"
    "compress payload compression = Inr chunkData"
    "get_item (create_missing file) (header xPos zPos + 3) = Inr oldSectorCount"
    "(if int (1 + (length chunkData + 1) div 4096) - int oldSectorCount \<noteq> 0
      then shift_following offset oldSectorCount
             (int (1 + (length chunkData + 1) div 4096) - int oldSectorCount) (create_missing file)
      else Inr (create_missing file)) = Inr MCA1"
    "write_header (header xPos zPos) offset (1 + (length chunkData + 1) div 4096) now MCA1 = Inr MCA2"
    "write_data offset (length chunkData + 1) compression chunkData MCA2 = Inr M'"
proof -
  from assms have nc: "\<not> closed"
    by (auto simp: Chunk_write_def split: if_splits)
  with assms obtain oc where
    oc: "choose_offset (create_missing file) (header xPos zPos) = Inr oc"
    and rest: "(case oc of (offset, compression) \<Rightarrow>
             bind_result (compress payload compression) (\<lambda>chunkData.
             let len = length chunkData + 1
             in bind_result (get_item (create_missing file) (header xPos zPos + 3)) (\<lambda>oldSectorCount.
                let newSectorCount = 1 + len div 4096;
                    sectorChange = int newSectorCount - int oldSectorCount
                in bind_result
                     (if sectorChange \<noteq> 0
                      then shift_following offset oldSectorCount sectorChange (create_missing file)
                      else Inr (create_missing file)) (\<lambda>MCA1.
                   bind_result (write_header (header xPos zPos) offset newSectorCount now MCA1)
                     (write_data offset len compression chunkData))))) = Inr M'"
    by (auto simp: Chunk_write_def Let_def bind_result_eq_Inr split: if_splits)
  obtain offset compression where [simp]: "oc = (offset, compression)"
    by (cases oc)
  from rest obtain chunkData oldSectorCount MCA1 MCA2 where
    "compress payload compression = Inr chunkData"
    "get_item (create_missing file) (header xPos zPos + 3) = Inr oldSectorCount"
    "(if int (1 + (length chunkData + 1) div 4096) - int oldSectorCount \<noteq> 0
      then shift_following offset oldSectorCount
             (int (1 + (length chunkData + 1) div 4096) - int oldSectorCount) (create_missing file)
      else Inr (create_missing file)) = Inr MCA1"
    "write_header (header xPos zPos) offset (1 + (length chunkData + 1) div 4096) now MCA1 = Inr MCA2"
    "write_data offset (length chunkData + 1) compression chunkData MCA2 = Inr M'"
    unfolding \<open>oc = (offset, compression)\<close> Let_def bind_result_eq_Inr prod.case by blast
  with nc oc show thesis
    by (intro that [of offset compression chunkData oldSectorCount MCA1 MCA2]) simp_all
qed

lemma resize_Inr:
  assumes "resize M n = Inr M'"
  shows "0 < n" "int (length M') = n" "\<And>p. p < length M \<Longrightarrow> p < length M' \<Longrightarrow> M' ! p = M ! p"
    "\<And>p. length M \<le> p \<Longrightarrow> p < length M' \<Longrightarrow> M' ! p = 0"
  using assms by (auto simp: resize_def nth_append split: if_splits)

lemma move_following_Inr:
  assumes "move_following offset oldSectorCount ch M = Inr M'"
    and "0 \<le> int (4096 * (offset + oldSectorCount)) + 4096 * ch"
  shows "int (length M') = int (length M) + ch * 4096"
    and "\<And>p. 4096 * (offset + oldSectorCount) \<le> p \<Longrightarrow> p < length M
           \<Longrightarrow> M' ! nat (int p + 4096 * ch) = M ! p"
    and "\<And>p. p < length M \<Longrightarrow> int p < int (4096 * (offset + oldSectorCount)) + 4096 * ch
           \<Longrightarrow> p < length M' \<Longrightarrow> M' ! p = M ! p"
proof -
  define oldStart where "oldStart = 4096 * (offset + oldSectorCount)"
  define newStart where "newStart = nat (int oldStart + 4096 * ch)"
  from assms(1) obtain M1 where
    M1: "resize M (int (length M) + ch * 4096) = Inr M1"
    and s: "set_slice M1 newStart (length M1) (drop oldStart M) = Inr M'"
    by (auto simp: move_following_def Let_def bind_result_eq_Inr set_slice_from_def
                   oldStart_def newStart_def)
  note r = resize_Inr [OF M1] and s1 = set_slice_Inr [OF s]
  have ns: "int newStart = int oldStart + 4096 * ch"
    using assms(2) by (simp add: newStart_def oldStart_def)
  show "int (length M') = int (length M) + ch * 4096"
    using r(2) s1(1) by simp
  show "M' ! nat (int p + 4096 * ch) = M ! p" if "4096 * (offset + oldSectorCount) \<le> p" "p < length M" for p
  proof -
    have p: "oldStart \<le> p" using that by (simp add: oldStart_def)
    then have "nat (int p + 4096 * ch) = newStart + (p - oldStart)"
      using ns by linarith
    moreover have "p - oldStart < length (drop oldStart M)"
      using that p by simp
    ultimately have "M' ! nat (int p + 4096 * ch) = drop oldStart M ! (p - oldStart)"
      using s1(4) by simp
    then show ?thesis using p that by simp
  qed
  show "M' ! p = M ! p"
    if "p < length M" "int p < int (4096 * (offset + oldSectorCount)) + 4096 * ch" "p < length M'" for p
  proof -
    have "p < newStart" using that(2) ns by (simp add: oldStart_def)
    then have "M' ! p = M1 ! p"
      using s1(2) [of p] that(3) s1(1) by simp
    then show ?thesis
      using r(3) [of p] that s1(1) by simp
  qed
qed

lemma shift_following_Inr:
  assumes "shift_following offset oldSectorCount ch M = Inr M'"
    and "0 < int offset + int oldSectorCount + ch" "1 \<le> offset"
  shows "int (length M') = int (length M) + ch * 4096"
    and "\<And>p. 4096 * (offset + oldSectorCount) \<le> p \<Longrightarrow> p < length M
           \<Longrightarrow> M' ! nat (int p + 4096 * ch) = M ! p"
    and "\<And>i. i < 1024 \<Longrightarrow> 4096 \<le> length M \<Longrightarrow> 4096 \<le> length M' \<Longrightarrow>
           (if entry_offset M i > offset
            then int (entry_offset M' i) = int (entry_offset M i) + ch
            else entry_offset M' i = entry_offset M i)"
    and "\<And>p. 4096 \<le> p \<Longrightarrow> p < length M \<Longrightarrow> p < length M'
           \<Longrightarrow> int p < int (4096 * (offset + oldSectorCount)) + 4096 * ch \<Longrightarrow> M' ! p = M ! p"
    and "\<And>i. i < 1024 \<Longrightarrow> 4096 \<le> length M \<Longrightarrow> 4096 \<le> length M' \<Longrightarrow>
           M' ! (i * 4 + 3) = M ! (i * 4 + 3)"
proof -
  from assms(1) obtain M1 where
    c: "change_offsets offset ch [0..<1024] M = Inr M1"
    and m: "move_following offset oldSectorCount ch M1 = Inr M'"
    by (auto simp: shift_following_def bind_result_eq_Inr)
  from change_offsets_Inr [OF c] have c1: "length M1 = length M"
    "\<And>p. p < length M \<Longrightarrow> (\<forall>i\<in>set [0..<1024]. p < i * 4 \<or> i * 4 + 3 \<le> p) \<Longrightarrow> M1 ! p = M ! p"
    "\<And>i. i \<in> set [0..<1024] \<Longrightarrow> (if entry_offset M i > offset
                    then int (entry_offset M1 i) = int (entry_offset M i) + ch
                    else entry_offset M1 i = entry_offset M i)"
    by simp_all
  have nonneg: "0 \<le> int (4096 * (offset + oldSectorCount)) + 4096 * ch"
    using assms(2) by simp
  note m1 = move_following_Inr [OF m nonneg]
  have high: "M1 ! p = M ! p" if "4096 \<le> p" "p < length M" for p
    using that by (intro c1(2)) auto
  have cnt: "M1 ! (i * 4 + 3) = M ! (i * 4 + 3)" if "i * 4 + 3 < length M" for i
  proof (rule c1(2) [OF that], rule ballI)
    fix j :: nat show "i * 4 + 3 < j * 4 \<or> j * 4 + 3 \<le> i * 4 + 3"
      by arith
  qed
  show "int (length M') = int (length M) + ch * 4096"
    using m1(1) c1(1) by simp
  show "M' ! nat (int p + 4096 * ch) = M ! p" if "4096 * (offset + oldSectorCount) \<le> p" "p < length M" for p
  proof -
    have "4096 \<le> p" using that(1) assms(3) by simp
    then show ?thesis
      using m1(2) [of p] that c1(1) high by simp
  qed
  have low: "M' ! p = M1 ! p" if "p < 4096" "4096 \<le> length M" "4096 \<le> length M'" for p
  proof (rule m1(3))
    have "int (4096 * (offset + oldSectorCount)) + 4096 * ch = 4096 * (int offset + int oldSectorCount + ch)"
      by simp
    moreover note assms(2)
    ultimately show "int p < int (4096 * (offset + oldSectorCount)) + 4096 * ch"
      using that(1) by simp
  qed (use that c1(1) in simp_all)
  show "if entry_offset M i > offset
            then int (entry_offset M' i) = int (entry_offset M i) + ch
            else entry_offset M' i = entry_offset M i"
    if "i < 1024" "4096 \<le> length M" "4096 \<le> length M'" for i
  proof -
    have "entry_offset M' i = from_bytes_big (get_slice M' (i * 4) (i * 4 + 3))"
      by (simp add: entry_offset_def)
    have "get_slice M' (i * 4) (i * 4 + 3) = get_slice M1 (i * 4) (i * 4 + 3)"
    proof (rule nth_equalityI)
      show "length (get_slice M' (i * 4) (i * 4 + 3)) = length (get_slice M1 (i * 4) (i * 4 + 3))"
        using that c1(1) by (simp add: get_slice_def)
      fix j assume "j < length (get_slice M' (i * 4) (i * 4 + 3))"
      then have "j < 3" by (simp add: get_slice_def)
      then show "get_slice M' (i * 4) (i * 4 + 3) ! j = get_slice M1 (i * 4) (i * 4 + 3) ! j"
        using that c1(1) low [of "i * 4 + j"] by (simp add: get_slice_def)
    qed
    then have "entry_offset M' i = entry_offset M1 i"
      by (simp add: entry_offset_def)
    then show ?thesis
      using c1(3) [of i] that(1) by simp
  qed
  show "M' ! p = M ! p"
    if "4096 \<le> p" "p < length M" "p < length M'" "int p < int (4096 * (offset + oldSectorCount)) + 4096 * ch" for p
    using m1(3) [of p] that c1(1) high by simp
  show "M' ! (i * 4 + 3) = M ! (i * 4 + 3)" if "i < 1024" "4096 \<le> length M" "4096 \<le> length M'" for i
    using low [of "i * 4 + 3"] cnt [of i] that by simp
qed

lemma entry_ends_Inr_aux:
  "entry_ends M is = Inr es \<Longrightarrow> es = map (sector_end M) is \<and> (\<forall>i\<in>set is. i * 4 + 3 < length M)"
proof (induction "is" arbitrary: es)
  case Nil
  then show ?case by simp
next
  case (Cons j "is")
  from Cons.prems obtain c es' where
    c: "get_item M (j * 4 + 3) = Inr c" and es': "entry_ends M is = Inr es'"
    and es: "es = (entry_offset M j + c) # es'"
    by (auto simp: bind_result_eq_Inr entry_offset_def)
  from c have "j * 4 + 3 < length M"
    by (auto simp: get_item_def split: if_splits)
  then show ?case
    using Cons.IH [OF es'] c es by (simp add: sector_end_def entry_count_def)
qed

lemma entry_ends_Inr:
  assumes "entry_ends M is = Inr es"
  shows "es = map (sector_end M) is" and "\<And>i. i \<in> set is \<Longrightarrow> i * 4 + 3 < length M"
  using entry_ends_Inr_aux [OF assms] by simp_all

lemma fold_max_Max: "fold max es (a::nat) = Max (insert a (set es))"
proof -
  have "fold max es a = Max (set (a # es))"
    by (rule Max.set_eq_fold [symmetric])
  then show ?thesis by simp
qed

lemma free_offset_Inr:
  assumes "free_offset M = Inr off"
  shows "off = highest_end M" "4096 \<le> length M"
proof -
  from assms obtain es where es: "entry_ends M [0..<1024] = Inr es" and off: "off = fold max es 2"
    by (auto simp: free_offset_def bind_result_eq_Inr)
  note e = entry_ends_Inr [OF es]
  show "off = highest_end M"
    by (simp add: off e(1) fold_max_Max highest_end_def)
  show "4096 \<le> length M"
    using e(2) [of 1023] by simp
qed

lemma header_div4: "header x z div 4 * 4 = header x z" "header x z div 4 < 1024"
proof -
  have "4 dvd (4 * (x + z * 32)) mod 1024"
    by (simp add: dvd_mod)
  moreover have "0 \<le> (4 * (x + z * 32)) mod 1024"
    by simp
  ultimately have "4 dvd header x z"
    unfolding header_def by (metis int_dvd_int_iff nat_0_le of_nat_numeral)
  then show "header x z div 4 * 4 = header x z" by simp
  show "header x z div 4 < 1024"
    using header_le [of x z] by simp
qed

lemma choose_offset_Inr:
  assumes "choose_offset M hdr = Inr (offset, compression)" "hdr div 4 * 4 = hdr"
  shows "1 \<le> offset" "4096 \<le> length M"
    and "entry_offset M (hdr div 4) = 0 \<Longrightarrow> offset = highest_end M \<and> compression = 2"
    and "entry_offset M (hdr div 4) \<noteq> 0 \<Longrightarrow>
           offset = entry_offset M (hdr div 4) \<and> get_item M (4096 * offset + 4) = Inr compression"
proof -
  have eo: "from_bytes_big (get_slice M hdr (hdr + 3)) = entry_offset M (hdr div 4)"
    by (simp add: entry_offset_def assms(2))
  show "1 \<le> offset"
    using assms(1) by (rule choose_offset_pos)
  show "4096 \<le> length M"
  proof (cases "entry_offset M (hdr div 4) = 0")
    case True
    with assms(1) eo have "free_offset M = Inr offset"
      by (auto simp: choose_offset_def bind_result_eq_Inr)
    then show ?thesis by (rule free_offset_Inr)
  next
    case False
    with assms(1) eo have "get_item M (4096 * entry_offset M (hdr div 4) + 4) = Inr compression"
      by (auto simp: choose_offset_def bind_result_eq_Inr Let_def)
    then have "4096 * entry_offset M (hdr div 4) + 4 < length M"
      by (auto simp: get_item_def split: if_splits)
    with False show ?thesis by simp
  qed
  show "offset = highest_end M \<and> compression = 2" if "entry_offset M (hdr div 4) = 0"
    using assms(1) eo that free_offset_Inr(1)
    by (auto simp: choose_offset_def bind_result_eq_Inr)
  show "offset = entry_offset M (hdr div 4) \<and> get_item M (4096 * offset + 4) = Inr compression"
    if "entry_offset M (hdr div 4) \<noteq> 0"
    using assms(1) eo that by (auto simp: choose_offset_def bind_result_eq_Inr Let_def)
qed

lemma Chunk_write_stored:
  assumes "Chunk_write compress closed xPos zPos payload now file = Inr MCA'"
  obtains offset compression chunkData where
    "choose_offset (create_missing file) (header xPos zPos) = Inr (offset, compression)"
    "compress payload compression = Inr chunkData"
    "entry_offset MCA' (header xPos zPos div 4) = offset"
    "entry_count MCA' (header xPos zPos div 4) = Inr (1 + (length chunkData + 1) div 4096)"
    "from_bytes_big (get_slice MCA' (offset * 4096) (offset * 4096 + 4)) = length chunkData + 1"
    "get_item MCA' (offset * 4096 + 4) = Inr compression"
    "get_slice MCA' (offset * 4096 + 5) (offset * 4096 + 5 + length chunkData) = chunkData"
proof -
  define hdr where "hdr = header xPos zPos"
  from assms obtain offset compression chunkData MCA1 MCA2 where
    w: "choose_offset (create_missing file) hdr = Inr (offset, compression)"
      "compress payload compression = Inr chunkData"
      "write_header hdr offset (1 + (length chunkData + 1) div 4096) now MCA1 = Inr MCA2"
      "write_data offset (length chunkData + 1) compression chunkData MCA2 = Inr MCA'"
    unfolding hdr_def by (rule Chunk_write_Inr)
  note h = write_header_Inr [OF w(3)] and d = write_data_Inr [OF w(4)]
  have pos: "1 \<le> offset"
    using w(1) by (rule choose_offset_pos)
  have hdr: "hdr \<le> 1020" "hdr div 4 * 4 = hdr"
    unfolding hdr_def by (rule header_le, rule header_div4)
  have low: "MCA' ! p = MCA2 ! p" if "p < 4096" for p
    using d(6) [of p] that pos h(1,2) by simp
  have "entry_offset MCA' (hdr div 4) = entry_offset MCA2 (hdr div 4)"
    using d(1) hdr by (intro entry_offset_cong) (auto intro: low)
  then have off: "entry_offset MCA' (hdr div 4) = offset"
    using h(5) hdr(2) by (simp add: entry_offset_def)
  have "get_item MCA' (hdr + 3) = get_item MCA2 (hdr + 3)"
    using d(1) low [of "hdr + 3"] hdr(1) by (simp add: get_item_def)
  then have cnt: "entry_count MCA' (hdr div 4) = Inr (1 + (length chunkData + 1) div 4096)"
    using h(6) hdr(2) by (simp add: entry_count_def)
  have "offset * 4096 + 5 + length chunkData = offset * 4096 + (length chunkData + 1) + 4"
    by simp
  then have "get_slice MCA' (offset * 4096 + 5) (offset * 4096 + 5 + length chunkData) = chunkData"
    using d(5) by (simp only:)
  then show thesis
    using w(1,2) off cnt d(3,4) unfolding hdr_def by (rule that [rotated -1])
qed

lemma from_bytes_big_zero: "\<forall>b\<in>set bs. b = 0 \<Longrightarrow> from_bytes_big bs = 0"
  by (induction bs rule: rev_induct) (simp_all add: from_bytes_big_def)

lemma highest_end_zero:
  assumes "\<forall>p<4096. MCA ! p = 0" "4096 \<le> length MCA"
  shows "highest_end MCA = 2"
proof -
  have "sector_end MCA i = 0" if "i < 1024" for i
  proof -
    have "\<forall>b\<in>set (get_slice MCA (i * 4) (i * 4 + 3)). b = 0"
      using assms that by (auto simp: get_slice_def in_set_conv_nth)
    then have "entry_offset MCA i = 0"
      unfolding entry_offset_def by (rule from_bytes_big_zero)
    moreover have "entry_count MCA i = Inr 0"
      using assms that by (simp add: entry_count_def get_item_def)
    ultimately show ?thesis by (simp add: sector_end_def)
  qed
  then have "sector_end MCA ` {0..<1024} = (\<lambda>i. 0) ` {0..<1024::nat}"
    by (intro image_cong) simp_all
  then show ?thesis by (simp add: highest_end_def image_constant_conv)
qed

lemma set_slice_succeeds:
  assumes "a + length data \<le> length M" "b = a + length data"
  shows "set_slice M a b data = Inr (take a M @ data @ drop b M)"
  using assms by (simp add: set_slice_def Let_def min_def max_def)

lemma entry_ends_succeeds:
  "\<forall>i\<in>set is. i * 4 + 3 < length M \<Longrightarrow> entry_ends M is = Inr (map (sector_end M) is)"
  by (induction "is") (simp_all add: sector_end_def entry_count_def entry_offset_def get_item_def)

lemma free_offset_succeeds:
  assumes "4096 \<le> length M"
  shows "free_offset M = Inr (highest_end M)"
proof -
  have "entry_ends M [0..<1024] = Inr (map (sector_end M) [0..<1024])"
    using assms by (intro entry_ends_succeeds) auto
  then show ?thesis
    by (simp add: free_offset_def fold_max_Max highest_end_def)
qed

lemma change_offsets_succeeds:
  assumes "distinct is"
    and "\<forall>i\<in>set is. i * 4 + 3 \<le> length M \<and> (entry_offset M i > offset \<longrightarrow>
           0 \<le> int (entry_offset M i) + ch \<and> int (entry_offset M i) + ch < 256 ^ 3)"
  shows "\<exists>M'. change_offsets offset ch is M = Inr M'"
  using assms
proof (induction "is" arbitrary: M)
  case Nil
  then show ?case by simp
next
  case (Cons i "is")
  from Cons.prems have i: "i * 4 + 3 \<le> length M" "i \<notin> set is" "distinct is"
    by simp_all
  show ?case
  proof (cases "entry_offset M i > offset")
    case False
    then show ?thesis
      using Cons.IH [of M] Cons.prems by (simp add: entry_offset_def)
  next
    case True
    with Cons.prems have rng: "0 \<le> int (entry_offset M i) + ch" "int (entry_offset M i) + ch < 256 ^ 3"
      by simp_all
    define bs where "bs = big_endian 3 (nat (int (entry_offset M i) + ch))"
    define M1 where "M1 = take (i * 4) M @ bs @ drop (i * 4 + 3) M"
    have tb: "to_bytes_big 3 (int (entry_offset M i) + ch) = Inr bs"
      using rng by (simp add: to_bytes_big_def bs_def)
    have ss: "set_slice M (i * 4) (i * 4 + 3) bs = Inr M1"
      unfolding M1_def using i(1) by (intro set_slice_succeeds) (simp_all add: bs_def)
    note s1 = set_slice_Inr [OF ss]
    have len: "length bs = 3" by (simp add: bs_def)
    have "\<forall>j\<in>set is. j * 4 + 3 \<le> length M1 \<and> (entry_offset M1 j > offset \<longrightarrow>
           0 \<le> int (entry_offset M1 j) + ch \<and> int (entry_offset M1 j) + ch < 256 ^ 3)"
    proof
      fix j assume j: "j \<in> set is"
      then have ne: "j \<noteq> i" using i(2) by auto
      have "entry_offset M1 j = entry_offset M j"
      proof (rule entry_offset_cong [OF s1(1)])
        fix p assume p: "j * 4 \<le> p" "p < j * 4 + 3" "p < length M"
        then have "p < i * 4 \<or> i * 4 + 3 \<le> p"
          using ne by linarith
        then show "M1 ! p = M ! p"
          using s1(2) [of p] s1(3) [of p] p(3) len by auto
      qed
      then show "j * 4 + 3 \<le> length M1 \<and> (entry_offset M1 j > offset \<longrightarrow>
           0 \<le> int (entry_offset M1 j) + ch \<and> int (entry_offset M1 j) + ch < 256 ^ 3)"
        using Cons.prems(2) j s1(1) by simp
    qed
    from Cons.IH [OF i(3) this] obtain M' where "change_offsets offset ch is M1 = Inr M'"
      by blast
    then show ?thesis
      using True tb ss by (simp add: entry_offset_def)
  qed
qed

lemma move_following_succeeds:
  assumes "0 < int (length M) + ch * 4096" "0 \<le> int (4096 * (offset + oldSectorCount)) + 4096 * ch"
  shows "\<exists>M'. move_following offset oldSectorCount ch M = Inr M'"
proof -
  define oldStart where "oldStart = 4096 * (offset + oldSectorCount)"
  define newStart where "newStart = nat (int oldStart + 4096 * ch)"
  define M1 where "M1 = take (nat (int (length M) + ch * 4096)) M
                      @ replicate (nat (int (length M) + ch * 4096) - length M) 0"
  have r: "resize M (int (length M) + ch * 4096) = Inr M1"
    using assms(1) by (simp add: resize_def M1_def)
  have len1: "int (length M1) = int (length M) + ch * 4096"
    using resize_Inr(2) [OF r] .
  have ns: "int newStart = int oldStart + 4096 * ch"
    using assms(2) by (simp add: newStart_def oldStart_def)
  have "length (drop oldStart M) = max (min newStart (length M1)) (min (length M1) (length M1))
          - min newStart (length M1)"
  proof (cases "oldStart \<le> length M")
    case True
    then have "newStart \<le> length M1"
      using ns len1 by linarith
    moreover have "int (length M1) - int newStart = int (length M) - int oldStart"
      using ns len1 by simp
    ultimately show ?thesis
      using True by (simp add: min_def max_def)
  next
    case False
    then have "length M1 \<le> newStart"
      using ns len1 by linarith
    then show ?thesis
      using False by (simp add: min_def max_def)
  qed
  then have "\<exists>M'. set_slice M1 newStart (length M1) (drop oldStart M) = Inr M'"
    by (simp add: set_slice_def Let_def)
  then show ?thesis
    using r by (simp add: move_following_def Let_def set_slice_from_def oldStart_def newStart_def)
qed

lemma write_header_succeeds:
  assumes "hdr + 4100 \<le> length M" "offset < 2 ^ 24" "newSectorCount \<le> 255"
    "0 \<le> timestamp" "timestamp < 2 ^ 32"
  shows "\<exists>M'. write_header hdr offset newSectorCount timestamp M = Inr M'"
proof -
  have 1: "to_bytes_big 3 (int offset) = Inr (big_endian 3 offset)"
    using assms(2) by (simp add: to_bytes_big_def)
  obtain M1 where 2: "set_slice M hdr (hdr + 3) (big_endian 3 offset) = Inr M1"
    using assms(1) by (simp add: set_slice_succeeds)
  have l1: "length M1 = length M"
    using set_slice_Inr(1) [OF 2] .
  obtain M2 where 3: "set_item M1 (hdr + 3) (int newSectorCount) = Inr M2" and l2: "length M2 = length M"
    using assms(1,3) l1 by (simp add: set_item_def)
  have 4: "to_bytes_big 4 timestamp = Inr (big_endian 4 (nat timestamp))"
    using assms(4,5) by (simp add: to_bytes_big_def)
  obtain M' where 5: "set_slice M2 (hdr + 4096) (hdr + 4100) (big_endian 4 (nat timestamp)) = Inr M'"
    using assms(1) l2 by (simp add: set_slice_succeeds)
  show ?thesis
    using 1 2 3 4 5 by (simp add: write_header_def)
qed

lemma write_data_succeeds:
  assumes "offset * 4096 + 5 + length chunkData \<le> length M" "length chunkData + 1 < 2 ^ 32"
    "compression \<le> 255"
  shows "\<exists>M'. write_data offset (length chunkData + 1) compression chunkData M = Inr M'"
proof -
  define off where "off = offset * 4096"
  have "nat (int (length chunkData + 1)) = length chunkData + 1"
    by (rule nat_int)
  moreover have "int (length chunkData + 1) < 256 ^ 4"
    using assms(2) by simp
  ultimately have 1: "to_bytes_big 4 (int (length chunkData + 1)) = Inr (big_endian 4 (length chunkData + 1))"
    unfolding to_bytes_big_def by (simp del: of_nat_add of_nat_Suc)
  obtain M1 where 2: "set_slice M off (off + 4) (big_endian 4 (length chunkData + 1)) = Inr M1"
    using assms(1) by (simp add: set_slice_succeeds off_def)
  have l1: "length M1 = length M"
    using set_slice_Inr(1) [OF 2] .
  obtain M2 where 3: "set_item M1 (off + 4) (int compression) = Inr M2" and l2: "length M2 = length M"
    using assms(1,3) l1 by (simp add: set_item_def off_def)
  obtain M' where 5: "set_slice M2 (off + 5) (off + (length chunkData + 1) + 4) chunkData = Inr M'"
    using assms(1) l2 by (simp add: set_slice_succeeds off_def)
  show ?thesis
    using 1 2 3 5 by (simp add: write_data_def off_def del: of_nat_add)
qed

lemma Chunk_write_succeeds:
  assumes nc: "\<not> closed"
    and co: "choose_offset (create_missing file) (header xPos zPos) = Inr (offset, compression)"
    and c: "compress payload compression = Inr chunkData"
    and cnt: "entry_count (create_missing file) (header xPos zPos div 4) = Inr oldSectorCount"
    and ch: "ch = int (1 + (length chunkData + 1) div 4096) - int oldSectorCount"
    and ent: "\<forall>i<1024. entry_offset (create_missing file) i > offset \<longrightarrow>
               0 \<le> int (entry_offset (create_missing file) i) + ch
             \<and> int (entry_offset (create_missing file) i) + ch < 256 ^ 3"
    and size: "offset < 2 ^ 24" "1 + (length chunkData + 1) div 4096 \<le> 255"
      "0 \<le> now" "now < 2 ^ 32" "length chunkData + 1 < 2 ^ 32" "compression \<le> 255"
      "int (offset * 4096 + 5 + length chunkData) \<le> int (length (create_missing file)) + ch * 4096"
      "5120 \<le> int (length (create_missing file)) + ch * 4096"
  shows "\<exists>MCA'. Chunk_write compress closed xPos zPos payload now file = Inr MCA'"
proof -
  define MCA where "MCA = create_missing file"
  define hdr where "hdr = header xPos zPos"
  define new where "new = 1 + (length chunkData + 1) div 4096"
  note h4 = header_div4 [of xPos zPos, folded hdr_def]
  note o = choose_offset_Inr [OF co [folded MCA_def hdr_def] h4(1)]
  have cnt': "get_item MCA (hdr + 3) = Inr oldSectorCount"
    using cnt h4(1) by (simp add: entry_count_def MCA_def hdr_def)
  have ne: "MCA \<noteq> []"
    using o(2) by auto
  have pos: "0 < int offset + int oldSectorCount + ch"
    by (simp add: ch)
  obtain MCA1 where sh: "(if ch \<noteq> 0 then shift_following offset oldSectorCount ch MCA else Inr MCA) = Inr MCA1"
    and len1: "int (length MCA1) = int (length MCA) + ch * 4096"
  proof (cases "ch = 0")
    case True
    then show thesis by (intro that [of MCA]) simp_all
  next
    case False
    have "\<exists>M1. change_offsets offset ch [0..<1024] MCA = Inr M1"
      using ent o(2) by (intro change_offsets_succeeds) (auto simp: MCA_def)
    then obtain M1 where M1: "change_offsets offset ch [0..<1024] MCA = Inr M1"
      by blast
    have l1: "length M1 = length MCA"
      using change_offsets_Inr [OF M1] by simp
    have "\<exists>M'. move_following offset oldSectorCount ch M1 = Inr M'"
      using size(8) pos l1 by (intro move_following_succeeds) (simp_all add: MCA_def)
    then obtain M' where "move_following offset oldSectorCount ch M1 = Inr M'"
      by blast
    with M1 have s: "shift_following offset oldSectorCount ch MCA = Inr M'"
      by (simp add: shift_following_def)
    from shift_following_Inr(1) [OF this pos o(1)] s False show thesis
      by (intro that [of M']) simp_all
  qed
  have "hdr \<le> 1020"
    unfolding hdr_def by (rule header_le)
  then have "hdr + 4100 \<le> length MCA1"
    using size(8) len1 by (simp add: MCA_def)
  from write_header_succeeds [OF this size(1) size(2) size(3) size(4)]
  obtain MCA2 where wh: "write_header hdr offset new now MCA1 = Inr MCA2"
    unfolding new_def by blast
  have "length MCA2 = length MCA1"
    using write_header_Inr(1) [OF wh] .
  then have "offset * 4096 + 5 + length chunkData \<le> length MCA2"
    using size(7) len1 by (simp add: MCA_def)
  from write_data_succeeds [OF this size(5) size(6)]
  obtain MCA' where wd: "write_data offset (length chunkData + 1) compression chunkData MCA2 = Inr MCA'"
    by blast
  have "Chunk_write compress closed xPos zPos payload now file = Inr MCA'"
    unfolding Chunk_write_def MCA_def [symmetric] hdr_def [symmetric] Let_def
    by (simp only: nc ne co [folded MCA_def hdr_def] c cnt' sh [unfolded ch] wh [unfolded new_def] wd
          if_False bind_result_simps prod.case)
  then show ?thesis ..
qed

lemma zero_slice:
  assumes "\<And>p. a \<le> p \<Longrightarrow> p < b \<Longrightarrow> p < length M \<Longrightarrow> M ! p = 0"
  shows "from_bytes_big (get_slice M a b) = 0"
proof (rule from_bytes_big_zero, rule ballI)
  fix x assume "x \<in> set (get_slice M a b)"
  then obtain j where "j < length (get_slice M a b)" "x = get_slice M a b ! j"
    by (auto simp: in_set_conv_nth)
  then have j: "j < b - a" "a + j < length M" "x = drop a M ! j"
    by (auto simp add: get_slice_def)
  then have "x = M ! (a + j)"
    by simp
  then show "x = 0"
    using assms [of "a + j"] j by simp
qed

lemma two_chunk_region_length: "length two_chunk_region = 16384"
  by (simp add: two_chunk_region_def)

lemma two_chunk_region_entries:
  assumes "i < 1024"
  shows "entry_offset two_chunk_region i = (if i = 0 then 2 else if i = 1 then 3 else 0)"
proof -
  have "entry_offset two_chunk_region 0 = 2" "entry_offset two_chunk_region 1 = 3"
    by (simp_all add: entry_offset_def two_chunk_region_def get_slice_def from_bytes_big_def)
  moreover have "entry_offset two_chunk_region i = 0" if "2 \<le> i"
    unfolding entry_offset_def
  proof (rule zero_slice)
    fix p assume p: "i * 4 \<le> p" "p < i * 4 + 3" "p < length two_chunk_region"
    then have "8 \<le> p" "p < 4096" using that assms by simp_all
    then show "two_chunk_region ! p = 0"
      by (simp add: two_chunk_region_def nth_append)
  qed
  ultimately show ?thesis
    by (cases "i = 0"; cases "i = 1") auto
qed

lemma two_chunk_region_slot:
  "choose_offset (create_missing (Some two_chunk_region)) (header 0 0) = Inr (2, 2)"
  "entry_count (create_missing (Some two_chunk_region)) (header 0 0 div 4) = Inr 1"
proof -
  have h: "header 0 0 = 0"
    by (simp add: header_def)
  have "from_bytes_big (get_slice two_chunk_region 0 3) = 2"
    using two_chunk_region_entries [of 0] by (simp add: entry_offset_def)
  moreover have "get_item two_chunk_region 8196 = Inr 2"
    by (simp add: get_item_def two_chunk_region_length) (simp add: two_chunk_region_def nth_append)
  ultimately show "choose_offset (create_missing (Some two_chunk_region)) (header 0 0) = Inr (2, 2)"
    by (simp add: choose_offset_def create_missing_def h)
  show "entry_count (create_missing (Some two_chunk_region)) (header 0 0 div 4) = Inr 1"
    by (simp add: entry_count_def create_missing_def h get_item_def two_chunk_region_length)
       (simp add: two_chunk_region_def)
qed

lemma two_chunk_region_write:
  "\<exists>MCA'. Chunk_write no_compression False 0 0 (replicate 4500 5) 7 (Some two_chunk_region)
            = Inr MCA'"
proof (rule Chunk_write_succeeds [where ch = 1 and chunkData = "replicate 4500 5"])
  show "choose_offset (create_missing (Some two_chunk_region)) (header 0 0) = Inr (2, 2)"
    "entry_count (create_missing (Some two_chunk_region)) (header 0 0 div 4) = Inr 1"
    by (rule two_chunk_region_slot)+
  show "no_compression (replicate 4500 5) 2 = Inr (replicate 4500 5)"
    by (simp add: no_compression_def)
  show "\<forall>i<1024. 2 < entry_offset (create_missing (Some two_chunk_region)) i \<longrightarrow>
      0 \<le> int (entry_offset (create_missing (Some two_chunk_region)) i) + 1 \<and>
      int (entry_offset (create_missing (Some two_chunk_region)) i) + 1 < 256 ^ 3"
    by (simp add: create_missing_def two_chunk_region_entries)
qed (simp_all add: create_missing_def two_chunk_region_length)

lemma new_region_slot:
  "choose_offset (create_missing None) (header 0 0) = Inr (2, 2)"
  "entry_count (create_missing None) (header 0 0 div 4) = Inr 0"
  "entry_offset (create_missing None) i = 0"
proof -
  have h: "header 0 0 = 0"
    by (simp add: header_def)
  show e: "entry_offset (create_missing None) i = 0" for i
    unfolding entry_offset_def by (rule zero_slice) (simp add: create_missing_def)
  have "highest_end (replicate 8192 0) = 2"
    by (rule highest_end_zero) simp_all
  then have "free_offset (replicate 8192 0) = Inr 2"
    by (simp add: free_offset_succeeds)
  then show "choose_offset (create_missing None) (header 0 0) = Inr (2, 2)"
    using e [of 0] by (simp add: choose_offset_def h entry_offset_def create_missing_def)
  show "entry_count (create_missing None) (header 0 0 div 4) = Inr 0"
    by (simp add: entry_count_def create_missing_def h get_item_def)
qed

lemma new_region_write:
  "\<exists>MCA'. Chunk_write no_compression False 0 0 [1, 2, 3] 7 None = Inr MCA'"
proof (rule Chunk_write_succeeds [where ch = 1 and chunkData = "[1, 2, 3]"])
  show "choose_offset (create_missing None) (header 0 0) = Inr (2, 2)"
    "entry_count (create_missing None) (header 0 0 div 4) = Inr 0"
    by (rule new_region_slot)+
  show "no_compression [1, 2, 3] 2 = Inr [1, 2, 3]"
    by (simp add: no_compression_def)
  show "\<forall>i<1024. 2 < entry_offset (create_missing None) i \<longrightarrow>
      0 \<le> int (entry_offset (create_missing None) i) + 1 \<and>
      int (entry_offset (create_missing None) i) + 1 < 256 ^ 3"
    by (simp add: new_region_slot(3))
qed (simp_all add: create_missing_def)

section \<open>Properties of the tag codec\<close>

lemma read_bytes_append [simp]: "read_bytes (bs @ rest) (int (length bs)) = Inr (bs, rest)"
  by (simp add: read_bytes_def)

lemma from_bytes_big_big_endian_unat:
  fixes w :: "'a::len word"
  assumes "LENGTH('a) = 8 * k"
  shows "from_bytes_big (big_endian k (unat w)) = unat w"
proof -
  have "unat w < 2 ^ LENGTH('a)"
    by (rule unsigned_less)
  also have "(2::nat) ^ LENGTH('a) = 256 ^ k"
    by (simp add: assms power_mult)
  finally show ?thesis
    by (simp add: from_bytes_big_big_endian)
qed

lemma signed_reading:
  fixes w :: "'a::len word"
  assumes h: "h = 2 ^ (LENGTH('a) - 1)"
  defines "v \<equiv> (if uint w < h then uint w else uint w - 2 * h)"
  shows "- h \<le> v \<and> v < h \<and> word_of_int v = w"
proof -
  have p: "(2::int) ^ LENGTH('a) = 2 * h"
    unfolding h by (metis len_gt_0 power_eq_if less_numeral_extra(3))
  have b: "0 \<le> uint w" "uint w < 2 * h"
    using uint_lt2p [of w] by (simp_all add: p)
  have r: "- h \<le> v \<and> v < h"
  proof (cases "uint w < h")
    case True
    then have "v = uint w" by (simp add: v_def)
    moreover have "0 \<le> uint w" by simp
    ultimately show ?thesis using True by linarith
  next
    case False
    then have "v = uint w - 2 * h" by (simp add: v_def)
    then show ?thesis using False b(2) by linarith
  qed
  have "word_of_int (uint w - 2 ^ LENGTH('a)) = (w :: 'a word)"
    using word_of_int_2p_len [where ?'a = 'a] by simp
  then have "word_of_int v = w"
    by (simp add: v_def p)
  with r show ?thesis by simp
qed

lemma unpack_pack:
  "pack_int cls_Byte (unpack_int cls_Byte (big_endian 1 (unat w1))) = Inr (TAG_Byte w1)"
  "pack_int cls_Short (unpack_int cls_Short (big_endian 2 (unat w2))) = Inr (TAG_Short w2)"
  "pack_int cls_Int (unpack_int cls_Int (big_endian 4 (unat w4))) = Inr (TAG_Int w4)"
  "pack_int cls_Long (unpack_int cls_Long (big_endian 8 (unat w8))) = Inr (TAG_Long w8)"
proof -
  have n1: "from_bytes_big (big_endian 1 (unat w1)) = unat w1"
    by (rule from_bytes_big_big_endian_unat) simp
  have "uint w1 < 2 ^ 8"
    using uint_lt2p [of w1] by simp
  then show "pack_int cls_Byte (unpack_int cls_Byte (big_endian 1 (unat w1))) = Inr (TAG_Byte w1)"
    unfolding unpack_int_def pack_int_def n1 Let_def by simp
  have n2: "from_bytes_big (big_endian 2 (unat w2)) = unat w2"
    by (rule from_bytes_big_big_endian_unat) simp
  have "- 32768 \<le> (if uint w2 < 32768 then uint w2 else uint w2 - 2 * 32768)
      \<and> (if uint w2 < 32768 then uint w2 else uint w2 - 2 * 32768) < 32768
      \<and> word_of_int (if uint w2 < 32768 then uint w2 else uint w2 - 2 * 32768) = w2"
    by (rule signed_reading) simp
  then show "pack_int cls_Short (unpack_int cls_Short (big_endian 2 (unat w2))) = Inr (TAG_Short w2)"
    unfolding unpack_int_def pack_int_def n2 Let_def by (simp split: if_splits)
  have n4: "from_bytes_big (big_endian 4 (unat w4)) = unat w4"
    by (rule from_bytes_big_big_endian_unat) simp
  have "- 2147483648 \<le> (if uint w4 < 2147483648 then uint w4 else uint w4 - 2 * 2147483648)
      \<and> (if uint w4 < 2147483648 then uint w4 else uint w4 - 2 * 2147483648) < 2147483648
      \<and> word_of_int (if uint w4 < 2147483648 then uint w4 else uint w4 - 2 * 2147483648) = w4"
    by (rule signed_reading) simp
  then show "pack_int cls_Int (unpack_int cls_Int (big_endian 4 (unat w4))) = Inr (TAG_Int w4)"
    unfolding unpack_int_def pack_int_def n4 Let_def by (simp split: if_splits)
  have n8: "from_bytes_big (big_endian 8 (unat w8)) = unat w8"
    by (rule from_bytes_big_big_endian_unat) simp
  have "- 9223372036854775808
        \<le> (if uint w8 < 9223372036854775808 then uint w8 else uint w8 - 2 * 9223372036854775808)
      \<and> (if uint w8 < 9223372036854775808 then uint w8 else uint w8 - 2 * 9223372036854775808)
        < 9223372036854775808
      \<and> word_of_int (if uint w8 < 9223372036854775808 then uint w8
                      else uint w8 - 2 * 9223372036854775808) = w8"
    by (rule signed_reading) simp
  then show "pack_int cls_Long (unpack_int cls_Long (big_endian 8 (unat w8))) = Inr (TAG_Long w8)"
    unfolding unpack_int_def pack_int_def n8 Let_def by (simp split: if_splits)
qed

lemma Number_from_bytes_to_bytes:
  assumes "is_integer (type_of t) \<or> is_decimal (type_of t)"
    and "\<And>w. t = TAG_Float w \<Longrightarrow> \<not> Float_nan w"
  shows "Number_from_bytes (type_of t) (Number_to_bytes t @ rest) = Inr (t, rest)"
proof (cases t)
  case (TAG_Byte w)
  have "read_bytes (big_endian 1 (unat w) @ rest) (int (length (big_endian 1 (unat w)))) = Inr (big_endian 1 (unat w), rest)"
    by (rule read_bytes_append)
  then show ?thesis
    using unpack_pack(1) [of w] by (simp add: Number_from_bytes_def TAG_Byte)
next
  case (TAG_Short w)
  have "read_bytes (big_endian 2 (unat w) @ rest) (int (length (big_endian 2 (unat w)))) = Inr (big_endian 2 (unat w), rest)"
    by (rule read_bytes_append)
  then show ?thesis
    using unpack_pack(2) [of w] by (simp add: Number_from_bytes_def TAG_Short)
next
  case (TAG_Int w)
  have "read_bytes (big_endian 4 (unat w) @ rest) (int (length (big_endian 4 (unat w)))) = Inr (big_endian 4 (unat w), rest)"
    by (rule read_bytes_append)
  then show ?thesis
    using unpack_pack(3) [of w] by (simp add: Number_from_bytes_def TAG_Int)
next
  case (TAG_Long w)
  have "read_bytes (big_endian 8 (unat w) @ rest) (int (length (big_endian 8 (unat w)))) = Inr (big_endian 8 (unat w), rest)"
    by (rule read_bytes_append)
  then show ?thesis
    using unpack_pack(4) [of w] by (simp add: Number_from_bytes_def TAG_Long)
next
  case (TAG_Float w)
  have "read_bytes (big_endian 4 (unat w) @ rest) (int (length (big_endian 4 (unat w)))) = Inr (big_endian 4 (unat w), rest)"
    by (rule read_bytes_append)
  moreover have "from_bytes_big (big_endian 4 (unat w)) = unat w"
    by (rule from_bytes_big_big_endian_unat) simp
  ultimately show ?thesis
    using assms(2) [OF TAG_Float] by (simp add: Number_from_bytes_def TAG_Float quiet_def)
next
  case (TAG_Double w)
  have "read_bytes (big_endian 8 (unat w) @ rest) (int (length (big_endian 8 (unat w)))) = Inr (big_endian 8 (unat w), rest)"
    by (rule read_bytes_append)
  moreover have "from_bytes_big (big_endian 8 (unat w)) = unat w"
    by (rule from_bytes_big_big_endian_unat) simp
  ultimately show ?thesis
    by (simp add: Number_from_bytes_def TAG_Double)
qed (use assms(1) in \<open>simp_all add: is_integer_def is_decimal_def\<close>)

lemma str_decode_encode: "map (\<lambda>b. char_of (unat b)) (str_encode s) = s"
proof -
  have "char_of (unat (of_nat (of_char c :: nat) :: byte)) = c" for c
  proof -
    have "unat (of_nat (of_char c :: nat) :: byte) = take_bit 8 (of_char c :: nat)"
      by (simp add: unsigned_of_nat)
    then show ?thesis
      by (simp add: char_of_take_bit_eq)
  qed
  then show ?thesis
    by (simp add: str_encode_def comp_def)
qed

lemma length_str_encode [simp]: "length (str_encode s) = length s"
  by (simp add: str_encode_def)

lemma pack_Short_length:
  assumes "n \<le> 32767"
  shows "pack_int cls_Short (int n) = Inr (TAG_Short (of_nat n))"
    and "py_int (TAG_Short (of_nat n)) = Inr (int n)"
    and "Number_to_bytes (TAG_Short (of_nat n)) = big_endian 2 n"
    and "unat (of_nat n :: 16 word) = n"
    and "sint (of_nat n :: 16 word) = int n"
proof -
  show "pack_int cls_Short (int n) = Inr (TAG_Short (of_nat n))"
    using assms by (simp add: pack_int_def)
  show "sint (of_nat n :: 16 word) = int n"
    using assms by (simp add: signed_of_nat signed_take_bit_int_eq_self)
  then show "py_int (TAG_Short (of_nat n)) = Inr (int n)"
    by simp
  show "unat (of_nat n :: 16 word) = n"
    using assms by (simp add: unsigned_of_nat take_bit_nat_eq_self)
  then show "Number_to_bytes (TAG_Short (of_nat n)) = big_endian 2 n"
    by simp
qed

lemma String_roundtrip:
  assumes "length s \<le> 32767" "valid_utf8 (str_encode s)"
  shows "String_init s = Inr (TAG_String s)"
    and "String_to_bytes s = Inr (big_endian 2 (length s) @ str_encode s)"
    and "String_from_bytes (big_endian 2 (length s) @ str_encode s @ rest) = Inr (TAG_String s, rest)"
proof -
  note p = pack_Short_length [OF assms(1)]
  show i: "String_init s = Inr (TAG_String s)"
    by (simp add: String_init_def p(1))
  show "String_to_bytes s = Inr (big_endian 2 (length s) @ str_encode s)"
    by (simp add: String_to_bytes_def p)
  have "Number_from_bytes (type_of (TAG_Short (of_nat (length s))))
          (Number_to_bytes (TAG_Short (of_nat (length s))) @ str_encode s @ rest)
        = Inr (TAG_Short (of_nat (length s)), str_encode s @ rest)"
    by (rule Number_from_bytes_to_bytes) (simp_all add: is_integer_def)
  then have 1: "Number_from_bytes cls_Short (big_endian 2 (length s) @ str_encode s @ rest)
        = Inr (TAG_Short (of_nat (length s)), str_encode s @ rest)"
    by (simp add: p(4))
  have 2: "read_bytes (str_encode s @ rest) (int (length s)) = Inr (str_encode s, rest)"
    using read_bytes_append [of "str_encode s" rest] by simp
  have 3: "bytes_decode (str_encode s) = Inr s"
    using assms(2) by (simp add: bytes_decode_def str_decode_encode)
  show "String_from_bytes (big_endian 2 (length s) @ str_encode s @ rest) = Inr (TAG_String s, rest)"
    by (simp add: String_from_bytes_def 1 p(5) 2 3 i)
qed

lemma String_init_too_long:
  assumes "32767 < length s"
  shows "String_init s = Inl StructError" "String_to_bytes s = Inl StructError"
  using assms by (simp_all add: String_init_def String_to_bytes_def pack_int_def)


lemma items_make_sequence [simp]: "items (make_sequence cls xs) = Some xs"
  by (simp add: make_sequence_def)

lemma items_SomeD:
  assumes "items self = Some xs"
  shows "is_sequence (type_of self)" "self = make_sequence (type_of self) xs"
  using assms by (cases self; simp add: is_sequence_def make_sequence_def)+




section \<open>Properties of the block lookup\<close>

lemma bit_length_le: "n < 2 ^ k \<Longrightarrow> bit_length n \<le> k"
proof (induction k arbitrary: n)
  case 0
  then show ?case by (simp add: bit_length.simps)
next
  case (Suc k)
  show ?case
  proof (cases "n = 0")
    case True
    then show ?thesis by (simp add: bit_length.simps)
  next
    case False
    have "n div 2 < 2 ^ k"
      using Suc.prems by (simp add: less_mult_imp_div_less mult.commute)
    from Suc.IH [OF this] show ?thesis
      using False by (subst bit_length.simps) simp
  qed
qed

lemma section_Y_SomeD:
  assumes "section_Y s = Some v"
  shows "bind_result (getitem s ''Y'') (\<lambda>Y. equals_int Y n) = Inr (v = n)"
proof (cases "getitem s ''Y''")
  case (Inl e)
  with assms show ?thesis by (simp add: section_Y_def)
next
  case (Inr t)
  with assms show ?thesis
    by (cases t) (auto simp: section_Y_def)
qed

lemma find_section_Cons:
  assumes "section_Y s = Some v"
  shows "find_section (s # rest) n = (if v = n then Inr (Some s) else find_section rest n)"
proof -
  from section_Y_SomeD [OF assms, of n] obtain t where
    "getitem s ''Y'' = Inr t" "equals_int t n = Inr (v = n)"
    by (auto simp: bind_result_eq_Inr)
  then show ?thesis by simp
qed


lemma example_chunk_Sections: "Sections (example_chunk sections) = Inr sections"
  by (simp add: Sections_def example_chunk_def getitem_def)

lemma example_section_items:
  "section_Y example_section = Some 0"
  "getitem example_section ''Palette''
     = Inr (TAG_List [named_block ''minecraft:air'', named_block ''minecraft:stone'',
                      named_block ''minecraft:dirt''])"
  "getitem example_section ''BlockStates'' = Inr (TAG_Long_Array [TAG_Long 0x1234567890ABCDEF])"
  by (simp_all add: section_Y_def example_section_def getitem_def)

text \<open>The conversion to text raises nothing but AttributeError, and raises it for every
  sequence that holds a number; so \<open>read_block\<close>, which prints the packed array before it
  reads an integer from it, returns no value.\<close>

lemma repr_error:
  "repr t = Inl e \<longrightarrow> e = AttributeError"
  "elements_repr xs = Inl e \<longrightarrow> e = AttributeError"
  "entries_repr d = Inl e \<longrightarrow> e = AttributeError"
  by (induction t and xs and d rule: repr_elements_repr_entries_repr.induct)
    (auto simp: bind_result_def split: sum.splits)

lemma repr_number:
  "is_integer (type_of t) \<or> is_decimal (type_of t) \<Longrightarrow> repr t = Inl AttributeError"
  by (cases t) (simp_all add: is_integer_def is_decimal_def)

lemma elements_repr_raises:
  assumes "elem \<in> set xs" "repr elem = Inl AttributeError"
  shows "elements_repr xs = Inl AttributeError"
  using assms(1)
proof (induction xs)
  case Nil
  then show ?case by simp
next
  case (Cons y ys)
  show ?case
  proof (cases "repr y")
    case (Inl e)
    with repr_error(1) [of y e] show ?thesis
      by simp
  next
    case (Inr r)
    with assms(2) have "elem \<noteq> y"
      by auto
    with Cons have "elements_repr ys = Inl AttributeError"
      by simp
    with Inr show ?thesis
      by simp
  qed
qed

lemma py_str_raises:
  assumes "items states = Some xs" "elem \<in> set xs"
    and "is_integer (type_of elem) \<or> is_decimal (type_of elem)"
  shows "py_str states = Inl AttributeError"
proof -
  have "elements_repr xs = Inl AttributeError"
    using assms(2) repr_number [OF assms(3)] by (rule elements_repr_raises)
  then show ?thesis
    using assms(1) by (cases states) simp_all
qed




lemma read_block_print_raises:
  assumes "n < 2 ^ 64" "getitem section ''BlockStates'' = Inr states"
    and "py_str states = Inl e"
  shows "read_block section n x y z = Inl e"
proof -
  have "bit_length n \<le> 64"
    using assms(1) by (rule bit_length_le)
  then have "max 4 (bit_length n) \<le> 64" "0 < max 4 (bit_length n)"
    by simp_all
  then have "64 div max 4 (bit_length n) \<noteq> 0"
    by (simp add: div_greater_zero_iff)
  then show ?thesis
    using assms(2,3) by (simp add: read_block_def Let_def)
qed



subsection \<open>Decoding what was encoded\<close>

lemma bind_fuel_simps [simp]:
  "bind_fuel None f = None"
  "bind_fuel (Some (Inl e)) f = Some (Inl e)"
  "bind_fuel (Some (Inr x)) f = f x"
  by (simp_all add: bind_fuel_def)

lemma from_ID_ID: "from_ID (ID cls) = Inr cls"
  by (cases cls) (simp_all add: from_ID_def IDtable_def)

lemma ID_byte:
  "pack_int cls_Byte (int (ID cls)) = Inr (TAG_Byte (of_nat (ID cls)))"
  "item_class (TAG_Byte (of_nat (ID cls))) = Inr cls"
proof -
  have le: "ID cls \<le> 12"
    by (cases cls) simp_all
  then show "pack_int cls_Byte (int (ID cls)) = Inr (TAG_Byte (of_nat (ID cls)))"
    by (simp add: pack_int_def)
  have "unat (of_nat (ID cls) :: 8 word) = ID cls"
    using le by (simp add: unsigned_of_nat take_bit_nat_eq_self)
  then have "uint (of_nat (ID cls) :: 8 word) = int (ID cls)"
    by (metis uint_nat)
  then show "item_class (TAG_Byte (of_nat (ID cls))) = Inr cls"
    by (simp add: item_class_def from_ID_ID)
qed

lemma read_Byte:
  "Number_from_bytes cls_Byte (Number_to_bytes (TAG_Byte w) @ rest) = Inr (TAG_Byte w, rest)"
  using Number_from_bytes_to_bytes [of "TAG_Byte w" rest] by (simp add: is_integer_def)

lemma length_Int:
  assumes "n < 2 ^ 31"
  shows "pack_int cls_Int (int n) = Inr (TAG_Int (of_nat n))"
    and "read_length (Number_to_bytes (TAG_Int (of_nat n)) @ rest) = Inr (n, rest)"
proof -
  have i: "int n < 2 ^ 31"
    using assms by (metis of_nat_less_iff of_nat_numeral of_nat_power)
  then show "pack_int cls_Int (int n) = Inr (TAG_Int (of_nat n))"
    by (simp add: pack_int_def)
  have s: "sint (of_nat n :: 32 word) = int n"
    using i by (simp add: signed_of_nat signed_take_bit_int_eq_self)
  have "Number_from_bytes (type_of (TAG_Int (of_nat n))) (Number_to_bytes (TAG_Int (of_nat n)) @ rest)
      = Inr (TAG_Int (of_nat n), rest)"
    by (rule Number_from_bytes_to_bytes) (simp_all add: is_integer_def)
  then show "read_length (Number_to_bytes (TAG_Int (of_nat n)) @ rest) = Inr (n, rest)"
    by (simp add: read_length_def s)
qed

lemma element_class_List:
  "element_class cls_List (Number_to_bytes (TAG_Byte (of_nat (ID c))) @ rest) = Inr (c, rest)"
  using ID_byte(2) [of c]
  by (simp only: element_class_def read_Byte if_True bind_result_simps prod.case item_class_def)
    (auto simp: bind_result_def split: sum.splits)

lemma element_class_Array:
  "cls \<noteq> cls_List \<Longrightarrow> element_class cls it = Inr (elementType cls [], it)"
  by (simp add: element_class_def)


lemma construct_number:
  "construct cls_Byte (TAG_Byte w1) = Inr (TAG_Byte w1)"
  "construct cls_Short (TAG_Short w2) = Inr (TAG_Short w2)"
  "construct cls_Int (TAG_Int w4) = Inr (TAG_Int w4)"
  "construct cls_Long (TAG_Long w8) = Inr (TAG_Long w8)"
  "construct cls_Float (TAG_Float w4) = Inr (TAG_Float w4)"
  "construct cls_Double (TAG_Double w8) = Inr (TAG_Double w8)"
proof -
  have "0 \<le> uint w1" "uint w1 < 2 ^ 8"
    using uint_lt2p [of w1] by simp_all
  then show "construct cls_Byte (TAG_Byte w1) = Inr (TAG_Byte w1)"
    by (simp add: construct.simps is_integer_def pack_int_def)
  have "- (2 ^ 15) \<le> sint w2" "sint w2 < 2 ^ 15"
    using sint_ge [of w2] sint_lt [of w2] by simp_all
  then show "construct cls_Short (TAG_Short w2) = Inr (TAG_Short w2)"
    by (simp add: construct.simps is_integer_def pack_int_def)
  have "- (2 ^ 31) \<le> sint w4" "sint w4 < 2 ^ 31"
    using sint_ge [of w4] sint_lt [of w4] by simp_all
  then show "construct cls_Int (TAG_Int w4) = Inr (TAG_Int w4)"
    by (simp add: construct.simps is_integer_def pack_int_def)
  have "- (2 ^ 63) \<le> sint w8" "sint w8 < 2 ^ 63"
    using sint_ge [of w8] sint_lt [of w8] by simp_all
  then show "construct cls_Long (TAG_Long w8) = Inr (TAG_Long w8)"
    by (simp add: construct.simps is_integer_def pack_int_def)
  show "construct cls_Float (TAG_Float w4) = Inr (TAG_Float w4)"
    by (simp add: construct.simps is_integer_def is_sequence_def)
  show "construct cls_Double (TAG_Double w8) = Inr (TAG_Double w8)"
    by (simp add: construct.simps is_integer_def is_sequence_def)
qed

lemma init_items_same:
  assumes same: "\<forall>x\<in>set xs. construct c x = Inr x \<and> type_of x = c"
    and c: "c \<noteq> cls_End"
    and ety: "\<And>ys. ys \<noteq> [] \<Longrightarrow> type_of (hd ys) = c \<Longrightarrow> elementType cls ys = c"
    and empty: "cls = cls_List \<or> elementType cls [] = c"
    and acc: "acc \<noteq> [] \<longrightarrow> type_of (hd acc) = c"
  shows "init_items cls acc xs = Inr (acc @ xs)"
  using same acc
proof (induction xs arbitrary: acc)
  case Nil
  then show ?case by simp
next
  case (Cons x xs)
  have x: "construct c x = Inr x" "type_of x = c"
    using Cons.prems(1) by simp_all
  have next_acc: "acc @ [x] \<noteq> [] \<longrightarrow> type_of (hd (acc @ [x])) = c"
    using Cons.prems(2) x(2) by (cases acc) simp_all
  have step: "init_items cls (acc @ [x]) xs = Inr ((acc @ [x]) @ xs)"
    using Cons.prems(1) next_acc by (intro Cons.IH) simp_all
  show ?case
  proof (cases "cls = cls_List \<and> elementType cls acc = cls_End")
    case True
    then have b: "(cls = cls_List \<and> elementType cls acc = cls_End) = True"
      by blast
    show ?thesis
      by (simp only: init_items.simps b if_True step) simp
  next
    case False
    have "elementType cls acc = c"
    proof (cases "acc = []")
      case True
      with False empty show ?thesis
        by (auto simp: elementType_def)
    next
      case False
      then show ?thesis
        using Cons.prems(2) ety by simp
    qed
    with False x(1) step show ?thesis
      by auto
  qed
qed

lemma elementType_hd:
  assumes "ys \<noteq> []" "type_of (hd ys) = c" "cls = cls_List \<or> elementType cls [] = c"
  shows "elementType cls ys = c"
  using assms by (cases ys) (auto simp: elementType_def split: if_splits)

lemma init_items_elements:
  assumes "\<forall>x\<in>set xs. construct c x = Inr x \<and> type_of x = c" "c \<noteq> cls_End"
    and "cls = cls_List \<or> elementType cls [] = c"
  shows "init_items cls [] xs = Inr xs"
  using init_items_same [of xs c cls "[]"] assms elementType_hd [of _ c cls] by simp

lemma elementType_Array:
  "elementType cls_Byte_Array xs = cls_Byte"
  "elementType cls_Int_Array xs = cls_Int"
  "elementType cls_Long_Array xs = cls_Long"
  by (simp_all add: elementType_def)

lemma construct_same:
  "well_formed t \<longrightarrow> construct (type_of t) t = Inr t"
  "elements_ok cls xs \<longrightarrow> cls \<noteq> cls_End \<longrightarrow> (\<forall>x\<in>set xs. construct cls x = Inr x \<and> type_of x = cls)"
  "entries_ok d \<longrightarrow> True"
proof (induction t and cls xs and d rule: well_formed_elements_ok_entries_ok.induct)
  case (9 xs)
  show ?case
  proof
    assume "well_formed (TAG_Byte_Array xs)"
    with 9 have "init_items cls_Byte_Array [] xs = Inr xs"
      by (intro init_items_elements [of xs cls_Byte]) (simp_all add: elementType_Array)
    then show "construct (type_of (TAG_Byte_Array xs)) (TAG_Byte_Array xs) = Inr (TAG_Byte_Array xs)"
      by (simp add: construct.simps is_integer_def is_sequence_def make_sequence_def)
  qed
next
  case (10 xs)
  show ?case
  proof
    assume "well_formed (TAG_Int_Array xs)"
    with 10 have "init_items cls_Int_Array [] xs = Inr xs"
      by (intro init_items_elements [of xs cls_Int]) (simp_all add: elementType_Array)
    then show "construct (type_of (TAG_Int_Array xs)) (TAG_Int_Array xs) = Inr (TAG_Int_Array xs)"
      by (simp add: construct.simps is_integer_def is_sequence_def make_sequence_def)
  qed
next
  case (11 xs)
  show ?case
  proof
    assume "well_formed (TAG_Long_Array xs)"
    with 11 have "init_items cls_Long_Array [] xs = Inr xs"
      by (intro init_items_elements [of xs cls_Long]) (simp_all add: elementType_Array)
    then show "construct (type_of (TAG_Long_Array xs)) (TAG_Long_Array xs) = Inr (TAG_Long_Array xs)"
      by (simp add: construct.simps is_integer_def is_sequence_def make_sequence_def)
  qed
next
  case (12 xs)
  show ?case
  proof
    assume wf: "well_formed (TAG_List xs)"
    have "init_items cls_List [] xs = Inr xs"
    proof (cases xs)
      case Nil
      then show ?thesis by simp
    next
      case (Cons y ys)
      with wf have "elementType cls_List xs \<noteq> cls_End"
        by simp
      with wf 12 show ?thesis
        by (intro init_items_elements [of xs "elementType cls_List xs"]) simp_all
    qed
    then show "construct (type_of (TAG_List xs)) (TAG_List xs) = Inr (TAG_List xs)"
      by (simp add: construct.simps is_integer_def is_sequence_def make_sequence_def)
  qed
next
  case 1
  show ?case
    by (simp add: construct.simps)
next
  case (8 s)
  show ?case
    by (simp add: construct.simps is_integer_def is_sequence_def)
next
  case (13 d)
  show ?case
    by (simp add: construct.simps is_integer_def is_sequence_def)
next
  case (15 cls x xs)
  then show ?case
    by auto
qed (simp_all add: construct_number)


lemma from_bytes_number:
  assumes "is_integer (type_of t) \<or> is_decimal (type_of t)" "1 \<le> f" "well_formed t"
  shows "from_bytes f (type_of t) (Number_to_bytes t @ tail) = Some (Inr (t, tail))"
proof -
  obtain f' where f: "f = Suc f'"
    using assms(2) by (cases f) simp_all
  have "type_of t \<noteq> cls_End"
    using assms(1) by (auto simp: is_integer_def is_decimal_def)
  moreover have "Number_from_bytes (type_of t) (Number_to_bytes t @ tail) = Inr (t, tail)"
    using assms(1) by (rule Number_from_bytes_to_bytes) (use assms(3) in simp)
  ultimately show ?thesis
    using assms(1) by (simp add: f)
qed

lemma from_bytes_String:
  assumes "text_ok s" "1 \<le> f"
  shows "to_bytes (TAG_String s) = Inr (big_endian 2 (length s) @ str_encode s)"
    and "from_bytes f cls_String ((big_endian 2 (length s) @ str_encode s) @ tail)
          = Some (Inr (TAG_String s, tail))"
proof -
  obtain f' where f: "f = Suc f'"
    using assms(2) by (cases f) simp_all
  note r = String_roundtrip [of s, OF assms(1) [unfolded text_ok_def, THEN conjunct1]
      assms(1) [unfolded text_ok_def, THEN conjunct2]]
  show "to_bytes (TAG_String s) = Inr (big_endian 2 (length s) @ str_encode s)"
    by (simp add: r(2))
  show "from_bytes f cls_String ((big_endian 2 (length s) @ str_encode s) @ tail)
          = Some (Inr (TAG_String s, tail))"
    by (simp add: f r(3) is_integer_def is_decimal_def)
qed

lemma from_bytes_sequence:
  assumes dec: "\<And>f rest. fuel_for_elements xs \<le> f \<Longrightarrow>
            decode_items f ety (length xs) (bs @ rest) = Some (Inr (xs, rest))"
    and len: "length xs < 2 ^ 31"
    and init: "init_items cls [] xs = Inr xs"
    and ec: "element_class cls (pre @ Number_to_bytes (TAG_Int (of_nat (length xs))) @ bs @ tail)
               = Inr (ety, Number_to_bytes (TAG_Int (of_nat (length xs))) @ bs @ tail)"
    and cls: "is_sequence cls"
    and fuel: "Suc (fuel_for_elements xs) \<le> f"
  shows "from_bytes f cls (pre @ Number_to_bytes (TAG_Int (of_nat (length xs))) @ bs @ tail)
           = Some (Inr (make_sequence cls xs, tail))"
proof -
  obtain f' where f: "f = Suc f'" and f': "fuel_for_elements xs \<le> f'"
    using fuel by (cases f) simp_all
  have c: "cls \<noteq> cls_End" "\<not> (is_integer cls \<or> is_decimal cls)" "cls \<noteq> cls_String"
    "cls \<noteq> cls_Compound"
    using cls by (auto simp: is_sequence_def is_integer_def is_decimal_def)
  have rl: "read_length (Number_to_bytes (TAG_Int (of_nat (length xs))) @ bs @ tail)
      = Inr (length xs, bs @ tail)"
    by (rule length_Int(2) [OF len])
  show ?thesis
    unfolding f from_bytes.simps
    by (simp only: c if_False ec rl bind_fuel_simps prod.case dec [OF f'] init bind_result_simps)
qed


lemma dict_set_new: "k \<notin> fst ` set d \<Longrightarrow> dict_set d k v = d @ [(k, v)]"
  by (induction d) auto

lemma decode_items_Nil: "1 \<le> f \<Longrightarrow> decode_items f cls 0 it = Some (Inr ([], it))"
  by (cases f) simp_all

lemma decode_items_Cons:
  assumes x: "\<And>f. fuel_for x \<le> f \<Longrightarrow> from_bytes f cls (b @ e @ bs @ rest) = Some (Inr (x, bs @ rest))"
    and xs: "\<And>f. fuel_for_elements xs \<le> f \<Longrightarrow>
            decode_items f cls (length xs) (bs @ rest) = Some (Inr (xs, rest))"
    and fuel: "fuel_for_elements (x # xs) \<le> f"
  shows "decode_items f cls (length (x # xs)) ((b @ e @ bs) @ rest) = Some (Inr (x # xs, rest))"
proof -
  obtain f' where f: "f = Suc f'" and f': "fuel_for x \<le> f'" "fuel_for_elements xs \<le> f'"
    using fuel by (cases f) simp_all
  show ?thesis
    by (simp add: f x [OF f'(1)] xs [OF f'(2)])
qed

lemma Compound_loop_Nil:
  assumes "1 \<le> f" "tail = [] \<or> hd tail = 0"
  shows "Compound_loop f acc tail = Some (Inr (acc, tl tail))"
proof -
  obtain f' where f: "f = Suc f'"
    using assms(1) by (cases f) simp_all
  show ?thesis
  proof (cases tail)
    case Nil
    then show ?thesis
      by (simp add: f Number_from_bytes_def read_bytes_def)
  next
    case (Cons z rest)
    with assms(2) have z: "z = 0"
      by simp
    have "Number_from_bytes cls_Byte (Number_to_bytes (TAG_Byte (of_nat (ID cls_End))) @ rest)
        = Inr (TAG_Byte (of_nat (ID cls_End)), rest)"
      by (rule read_Byte)
    then have n: "Number_from_bytes cls_Byte (0 # rest) = Inr (TAG_Byte 0, rest)"
      by simp
    have "item_class (TAG_Byte (of_nat (ID cls_End))) = Inr cls_End"
      by (rule ID_byte(2))
    then have i: "item_class (TAG_Byte 0) = Inr cls_End"
      by simp
    show ?thesis
      by (simp add: f Cons z n i)
  qed
qed

lemma Compound_loop_Cons:
  assumes name: "text_ok name"
    and ty: "type_of v \<noteq> cls_End"
    and v: "\<And>f. fuel_for v \<le> f \<Longrightarrow>
            from_bytes f (type_of v) (b @ e @ bs @ tail) = Some (Inr (v, bs @ tail))"
    and d: "\<And>f. fuel_for_entries d \<le> f \<Longrightarrow>
            Compound_loop f (acc @ [(name, v)]) (bs @ tail) = Some (Inr ((acc @ [(name, v)]) @ d, tl tail))"
    and new: "name \<notin> fst ` set acc"
    and fuel: "fuel_for_entries ((name, v) # d) \<le> f"
  shows "Compound_loop f acc
           ((Number_to_bytes (TAG_Byte (of_nat (ID (type_of v))))
              @ (big_endian 2 (length name) @ str_encode name) @ b @ e @ bs) @ tail)
         = Some (Inr (acc @ (name, v) # d, tl tail))"
proof -
  obtain f' where f: "f = Suc f'" and f': "fuel_for v \<le> f'" "fuel_for_entries d \<le> f'"
    using fuel by (cases f) simp_all
  let ?it1 = "big_endian 2 (length name) @ str_encode name @ b @ e @ bs @ tail"
  have 1: "Number_from_bytes cls_Byte (Number_to_bytes (TAG_Byte (of_nat (ID (type_of v)))) @ ?it1)
      = Inr (TAG_Byte (of_nat (ID (type_of v))), ?it1)"
    by (rule read_Byte)
  have 2: "item_class (TAG_Byte (of_nat (ID (type_of v)))) = Inr (type_of v)"
    by (rule ID_byte(2))
  have 3: "String_from_bytes ?it1 = Inr (TAG_String name, b @ e @ bs @ tail)"
    using String_roundtrip(3) [of name "b @ e @ bs @ tail"] name by (simp add: text_ok_def)
  have 4: "dict_set acc (text_of (TAG_String name)) v = acc @ [(name, v)]"
    using new by (simp add: text_of_def dict_set_new)
  have "Compound_loop (Suc f') acc (Number_to_bytes (TAG_Byte (of_nat (ID (type_of v)))) @ ?it1)
      = Some (Inr (acc @ (name, v) # d, tl tail))"
    unfolding Compound_loop.simps
    by (simp only: 1 2 3 4 v [OF f'(1)] d [OF f'(2)] sum.case prod.case bind_fuel_simps ty if_False)
      simp
  then show ?thesis
    by (simp add: f)
qed

lemma from_bytes_Compound:
  assumes d: "\<And>f. fuel_for_entries d \<le> f \<Longrightarrow> Compound_loop f [] (bs @ tail) = Some (Inr (d, tl tail))"
    and fuel: "fuel_for (TAG_Compound d) \<le> f"
  shows "from_bytes f cls_Compound (bs @ tail) = Some (Inr (TAG_Compound d, tl tail))"
proof -
  obtain f' where f: "f = Suc f'" and f': "fuel_for_entries d \<le> f'"
    using fuel by (cases f) simp_all
  show ?thesis
    by (simp add: f d [OF f'] is_integer_def is_decimal_def)
qed


lemma nested_form:
  assumes "\<forall>f tail. fuel_for t \<le> f \<longrightarrow> (type_of t = cls_Compound \<longrightarrow> tail = [] \<or> hd tail = 0) \<longrightarrow>
      from_bytes f (type_of t) (b @ tail)
        = Some (Inr (t, if type_of t = cls_Compound then tl tail else tail))"
    and "fuel_for t \<le> f"
  shows "from_bytes f (type_of t) (b @ (if type_of t = cls_Compound then [0] else []) @ rest)
      = Some (Inr (t, rest))"
  using assms(1) [rule_format, of f "(if type_of t = cls_Compound then [0] else []) @ rest"] assms(2)
  by (simp split: if_splits)

lemma to_bytes_sequence:
  assumes "elements_to_bytes xs = Inr bs" "length xs < 2 ^ 31"
  shows "to_bytes (TAG_Byte_Array xs) = Inr (Number_to_bytes (TAG_Int (of_nat (length xs))) @ bs)"
    and "to_bytes (TAG_Int_Array xs) = Inr (Number_to_bytes (TAG_Int (of_nat (length xs))) @ bs)"
    and "to_bytes (TAG_Long_Array xs) = Inr (Number_to_bytes (TAG_Int (of_nat (length xs))) @ bs)"
    and "to_bytes (TAG_List xs) = Inr (Number_to_bytes (TAG_Byte (of_nat (ID (elementType cls_List xs))))
           @ Number_to_bytes (TAG_Int (of_nat (length xs))) @ bs)"
  using assms length_Int(1) [OF assms(2)] ID_byte(1) [of "elementType cls_List xs"]
  by (simp_all only: to_bytes.simps bind_result_simps)

lemma is_sequence_List: "is_sequence cls_List"
  by (simp add: is_sequence_def)

lemma round_trip_intro:
  assumes "to_bytes t = Inr bs" "type_of t \<noteq> cls_Compound"
    and "\<And>f tail. fuel_for t \<le> f \<Longrightarrow> from_bytes f (type_of t) (bs @ tail) = Some (Inr (t, tail))"
  shows "\<exists>bs. to_bytes t = Inr bs
        \<and> (\<forall>f tail. fuel_for t \<le> f \<longrightarrow> (type_of t = cls_Compound \<longrightarrow> tail = [] \<or> hd tail = 0) \<longrightarrow>
             from_bytes f (type_of t) (bs @ tail)
               = Some (Inr (t, if type_of t = cls_Compound then tl tail else tail)))"
  using assms by (intro exI [of _ bs]) simp

lemma round_trip_aux:
  "well_formed t \<longrightarrow> t \<noteq> TAG_End \<longrightarrow>
     (\<exists>bs. to_bytes t = Inr bs
        \<and> (\<forall>f tail. fuel_for t \<le> f \<longrightarrow> (type_of t = cls_Compound \<longrightarrow> tail = [] \<or> hd tail = 0) \<longrightarrow>
             from_bytes f (type_of t) (bs @ tail)
               = Some (Inr (t, if type_of t = cls_Compound then tl tail else tail))))"
  "elements_ok cls xs \<longrightarrow>
     (\<exists>bs. elements_to_bytes xs = Inr bs
        \<and> (\<forall>f rest. fuel_for_elements xs \<le> f \<longrightarrow>
             decode_items f cls (length xs) (bs @ rest) = Some (Inr (xs, rest))))"
  "entries_ok d \<longrightarrow>
     (\<exists>bs. entries_to_bytes d = Inr bs
        \<and> (\<forall>f acc tail. fuel_for_entries d \<le> f \<longrightarrow> distinct (map fst (acc @ d)) \<longrightarrow>
             (tail = [] \<or> hd tail = 0) \<longrightarrow>
             Compound_loop f acc (bs @ tail) = Some (Inr (acc @ d, tl tail))))"
proof (induction t and cls xs and d rule: well_formed_elements_ok_entries_ok.induct)
  case 1
  show ?case by simp
next
  case (2 w)
  show ?case
    using from_bytes_number [of "TAG_Byte w"] by (simp add: is_integer_def)
next
  case (3 w)
  show ?case
    using from_bytes_number [of "TAG_Short w"] by (simp add: is_integer_def)
next
  case (4 w)
  show ?case
    using from_bytes_number [of "TAG_Int w"] by (simp add: is_integer_def)
next
  case (5 w)
  show ?case
    using from_bytes_number [of "TAG_Long w"] by (simp add: is_integer_def)
next
  case (6 w)
  show ?case
    using from_bytes_number [of "TAG_Float w"] by (simp add: is_decimal_def)
next
  case (7 w)
  show ?case
    using from_bytes_number [of "TAG_Double w"] by (simp add: is_decimal_def)
next
  case (8 s)
  show ?case
  proof (intro impI)
    assume "well_formed (TAG_String s)"
    then have t: "text_ok s"
      by simp
    show "\<exists>bs. to_bytes (TAG_String s) = Inr bs \<and> (\<forall>f tail. fuel_for (TAG_String s) \<le> f \<longrightarrow>
        (type_of (TAG_String s) = cls_Compound \<longrightarrow> tail = [] \<or> hd tail = 0) \<longrightarrow>
        from_bytes f (type_of (TAG_String s)) (bs @ tail) =
        Some (Inr (TAG_String s, if type_of (TAG_String s) = cls_Compound then tl tail else tail)))"
      using from_bytes_String(1) [OF t, of 1] from_bytes_String(2) [OF t] by auto
  qed
next
  case (9 xs)
  show ?case
  proof (intro impI)
    assume wf: "well_formed (TAG_Byte_Array xs)"
    then have len: "length xs < 2 ^ 31" and ok: "elements_ok cls_Byte xs"
      by simp_all
    from 9 ok obtain bs where bs: "elements_to_bytes xs = Inr bs"
      and dec: "\<And>f rest. fuel_for_elements xs \<le> f \<Longrightarrow>
            decode_items f cls_Byte (length xs) (bs @ rest) = Some (Inr (xs, rest))"
      by blast
    have init: "init_items cls_Byte_Array [] xs = Inr xs"
      using construct_same(2) [of cls_Byte xs] ok
      by (intro init_items_elements [of xs cls_Byte]) (simp_all add: elementType_Array)
    show "\<exists>bs. to_bytes (TAG_Byte_Array xs) = Inr bs \<and> (\<forall>f tail. fuel_for (TAG_Byte_Array xs) \<le> f \<longrightarrow>
        (type_of (TAG_Byte_Array xs) = cls_Compound \<longrightarrow> tail = [] \<or> hd tail = 0) \<longrightarrow>
        from_bytes f (type_of (TAG_Byte_Array xs)) (bs @ tail) =
        Some (Inr (TAG_Byte_Array xs, if type_of (TAG_Byte_Array xs) = cls_Compound then tl tail else tail)))"
    proof (rule round_trip_intro [OF to_bytes_sequence(1) [OF bs len]])
      show "type_of (TAG_Byte_Array xs) \<noteq> cls_Compound"
        by simp
      fix f tail
      assume "fuel_for (TAG_Byte_Array xs) \<le> f"
      then have f: "Suc (fuel_for_elements xs) \<le> f"
        by simp
      have "from_bytes f cls_Byte_Array ([] @ Number_to_bytes (TAG_Int (of_nat (length xs))) @ bs @ tail)
          = Some (Inr (make_sequence cls_Byte_Array xs, tail))"
        using dec len init _ _ f
        by (rule from_bytes_sequence) (simp_all add: element_class_Array elementType_Array is_sequence_def)
      then show "from_bytes f (type_of (TAG_Byte_Array xs))
            ((Number_to_bytes (TAG_Int (of_nat (length xs))) @ bs) @ tail)
          = Some (Inr (TAG_Byte_Array xs, tail))"
        by (simp add: make_sequence_def)
    qed
  qed
next
  case (10 xs)
  show ?case
  proof (intro impI)
    assume wf: "well_formed (TAG_Int_Array xs)"
    then have len: "length xs < 2 ^ 31" and ok: "elements_ok cls_Int xs"
      by simp_all
    from 10 ok obtain bs where bs: "elements_to_bytes xs = Inr bs"
      and dec: "\<And>f rest. fuel_for_elements xs \<le> f \<Longrightarrow>
            decode_items f cls_Int (length xs) (bs @ rest) = Some (Inr (xs, rest))"
      by blast
    have init: "init_items cls_Int_Array [] xs = Inr xs"
      using construct_same(2) [of cls_Int xs] ok
      by (intro init_items_elements [of xs cls_Int]) (simp_all add: elementType_Array)
    show "\<exists>bs. to_bytes (TAG_Int_Array xs) = Inr bs \<and> (\<forall>f tail. fuel_for (TAG_Int_Array xs) \<le> f \<longrightarrow>
        (type_of (TAG_Int_Array xs) = cls_Compound \<longrightarrow> tail = [] \<or> hd tail = 0) \<longrightarrow>
        from_bytes f (type_of (TAG_Int_Array xs)) (bs @ tail) =
        Some (Inr (TAG_Int_Array xs, if type_of (TAG_Int_Array xs) = cls_Compound then tl tail else tail)))"
    proof (rule round_trip_intro [OF to_bytes_sequence(2) [OF bs len]])
      show "type_of (TAG_Int_Array xs) \<noteq> cls_Compound"
        by simp
      fix f tail
      assume "fuel_for (TAG_Int_Array xs) \<le> f"
      then have f: "Suc (fuel_for_elements xs) \<le> f"
        by simp
      have "from_bytes f cls_Int_Array ([] @ Number_to_bytes (TAG_Int (of_nat (length xs))) @ bs @ tail)
          = Some (Inr (make_sequence cls_Int_Array xs, tail))"
        using dec len init _ _ f
        by (rule from_bytes_sequence) (simp_all add: element_class_Array elementType_Array is_sequence_def)
      then show "from_bytes f (type_of (TAG_Int_Array xs))
            ((Number_to_bytes (TAG_Int (of_nat (length xs))) @ bs) @ tail)
          = Some (Inr (TAG_Int_Array xs, tail))"
        by (simp add: make_sequence_def)
    qed
  qed
next
  case (11 xs)
  show ?case
  proof (intro impI)
    assume wf: "well_formed (TAG_Long_Array xs)"
    then have len: "length xs < 2 ^ 31" and ok: "elements_ok cls_Long xs"
      by simp_all
    from 11 ok obtain bs where bs: "elements_to_bytes xs = Inr bs"
      and dec: "\<And>f rest. fuel_for_elements xs \<le> f \<Longrightarrow>
            decode_items f cls_Long (length xs) (bs @ rest) = Some (Inr (xs, rest))"
      by blast
    have init: "init_items cls_Long_Array [] xs = Inr xs"
      using construct_same(2) [of cls_Long xs] ok
      by (intro init_items_elements [of xs cls_Long]) (simp_all add: elementType_Array)
    show "\<exists>bs. to_bytes (TAG_Long_Array xs) = Inr bs \<and> (\<forall>f tail. fuel_for (TAG_Long_Array xs) \<le> f \<longrightarrow>
        (type_of (TAG_Long_Array xs) = cls_Compound \<longrightarrow> tail = [] \<or> hd tail = 0) \<longrightarrow>
        from_bytes f (type_of (TAG_Long_Array xs)) (bs @ tail) =
        Some (Inr (TAG_Long_Array xs, if type_of (TAG_Long_Array xs) = cls_Compound then tl tail else tail)))"
    proof (rule round_trip_intro [OF to_bytes_sequence(3) [OF bs len]])
      show "type_of (TAG_Long_Array xs) \<noteq> cls_Compound"
        by simp
      fix f tail
      assume "fuel_for (TAG_Long_Array xs) \<le> f"
      then have f: "Suc (fuel_for_elements xs) \<le> f"
        by simp
      have "from_bytes f cls_Long_Array ([] @ Number_to_bytes (TAG_Int (of_nat (length xs))) @ bs @ tail)
          = Some (Inr (make_sequence cls_Long_Array xs, tail))"
        using dec len init _ _ f
        by (rule from_bytes_sequence) (simp_all add: element_class_Array elementType_Array is_sequence_def)
      then show "from_bytes f (type_of (TAG_Long_Array xs))
            ((Number_to_bytes (TAG_Int (of_nat (length xs))) @ bs) @ tail)
          = Some (Inr (TAG_Long_Array xs, tail))"
        by (simp add: make_sequence_def)
    qed
  qed
next
  case (12 xs)
  show ?case
  proof (intro impI)
    assume wf: "well_formed (TAG_List xs)"
    let ?c = "elementType cls_List xs"
    from wf have len: "length xs < 2 ^ 31" and ok: "elements_ok ?c xs"
      by simp_all
    from 12 ok obtain bs where bs: "elements_to_bytes xs = Inr bs"
      and dec: "\<And>f rest. fuel_for_elements xs \<le> f \<Longrightarrow>
            decode_items f ?c (length xs) (bs @ rest) = Some (Inr (xs, rest))"
      by blast
    have init: "init_items cls_List [] xs = Inr xs"
    proof (cases xs)
      case Nil
      then show ?thesis by simp
    next
      case (Cons y ys)
      with ok have "?c \<noteq> cls_End"
        by simp
      with ok construct_same(2) [of ?c xs] show ?thesis
        by (intro init_items_elements [of xs ?c]) simp_all
    qed
    show "\<exists>bs. to_bytes (TAG_List xs) = Inr bs \<and> (\<forall>f tail. fuel_for (TAG_List xs) \<le> f \<longrightarrow>
        (type_of (TAG_List xs) = cls_Compound \<longrightarrow> tail = [] \<or> hd tail = 0) \<longrightarrow>
        from_bytes f (type_of (TAG_List xs)) (bs @ tail) =
        Some (Inr (TAG_List xs, if type_of (TAG_List xs) = cls_Compound then tl tail else tail)))"
    proof (rule round_trip_intro [OF to_bytes_sequence(4) [OF bs len]])
      show "type_of (TAG_List xs) \<noteq> cls_Compound"
        by simp
      fix f tail
      assume "fuel_for (TAG_List xs) \<le> f"
      then have f: "Suc (fuel_for_elements xs) \<le> f"
        by simp
      have "from_bytes f cls_List (Number_to_bytes (TAG_Byte (of_nat (ID ?c)))
            @ Number_to_bytes (TAG_Int (of_nat (length xs))) @ bs @ tail)
          = Some (Inr (make_sequence cls_List xs, tail))"
        using dec len init element_class_List is_sequence_List f
        by (rule from_bytes_sequence)
      then show "from_bytes f (type_of (TAG_List xs))
            ((Number_to_bytes (TAG_Byte (of_nat (ID ?c)))
               @ Number_to_bytes (TAG_Int (of_nat (length xs))) @ bs) @ tail)
          = Some (Inr (TAG_List xs, tail))"
        by (simp add: make_sequence_def)
    qed
  qed
next
  case (13 d)
  show ?case
  proof (intro impI)
    assume wf: "well_formed (TAG_Compound d)"
    then have ok: "entries_ok d"
      by simp
    from 13 ok obtain bs where bs: "entries_to_bytes d = Inr bs"
      and dec: "\<And>f acc tail. fuel_for_entries d \<le> f \<Longrightarrow> distinct (map fst (acc @ d)) \<Longrightarrow>
            tail = [] \<or> hd tail = 0 \<Longrightarrow>
            Compound_loop f acc (bs @ tail) = Some (Inr (acc @ d, tl tail))"
      by blast
    have main: "from_bytes f cls_Compound (bs @ tail) = Some (Inr (TAG_Compound d, tl tail))"
      if "fuel_for (TAG_Compound d) \<le> f" "tail = [] \<or> hd tail = 0" for f tail
      using dec [of _ "[]" tail] wf that by (intro from_bytes_Compound) simp_all
    show "\<exists>bs. to_bytes (TAG_Compound d) = Inr bs \<and> (\<forall>f tail. fuel_for (TAG_Compound d) \<le> f \<longrightarrow>
        (type_of (TAG_Compound d) = cls_Compound \<longrightarrow> tail = [] \<or> hd tail = 0) \<longrightarrow>
        from_bytes f (type_of (TAG_Compound d)) (bs @ tail) =
        Some (Inr (TAG_Compound d, if type_of (TAG_Compound d) = cls_Compound then tl tail else tail)))"
    proof (intro exI [of _ bs] conjI allI impI)
      show "to_bytes (TAG_Compound d) = Inr bs"
        using bs by simp
      fix f and tail :: "byte list"
      assume "fuel_for (TAG_Compound d) \<le> f"
        and "type_of (TAG_Compound d) = cls_Compound \<longrightarrow> tail = [] \<or> hd tail = 0"
      then show "from_bytes f (type_of (TAG_Compound d)) (bs @ tail) =
          Some (Inr (TAG_Compound d, if type_of (TAG_Compound d) = cls_Compound then tl tail else tail))"
        using main [of f tail] by simp
    qed
  qed
next
  case (14 cls)
  show ?case
    by (simp add: decode_items_Nil)
next
  case (15 cls x xs)
  show ?case
  proof (intro impI)
    assume ok: "elements_ok cls (x # xs)"
    then have ty: "type_of x = cls" "x \<noteq> TAG_End" and wf: "well_formed x" and oks: "elements_ok cls xs"
      by auto
    let ?e = "if type_of x = cls_Compound then [0] else []"
    from 15(1) wf ty(2) obtain b where b: "to_bytes x = Inr b"
      and decx: "\<forall>f tail. fuel_for x \<le> f \<longrightarrow> (type_of x = cls_Compound \<longrightarrow> tail = [] \<or> hd tail = 0) \<longrightarrow>
          from_bytes f (type_of x) (b @ tail)
            = Some (Inr (x, if type_of x = cls_Compound then tl tail else tail))"
      by blast
    from 15(2) oks obtain bs where bs: "elements_to_bytes xs = Inr bs"
      and dec: "\<And>f rest. fuel_for_elements xs \<le> f \<Longrightarrow>
            decode_items f cls (length xs) (bs @ rest) = Some (Inr (xs, rest))"
      by blast
    have "decode_items f cls (length (x # xs)) ((b @ ?e @ bs) @ rest) = Some (Inr (x # xs, rest))"
      if "fuel_for_elements (x # xs) \<le> f" for f rest
      using nested_form [OF decx, of _ "bs @ rest"] dec that unfolding ty(1)
      by (intro decode_items_Cons) simp_all
    moreover have "elements_to_bytes (x # xs) = Inr (b @ ?e @ bs)"
      using b bs by simp
    ultimately show "\<exists>bs. elements_to_bytes (x # xs) = Inr bs \<and> (\<forall>f rest. fuel_for_elements (x # xs) \<le> f \<longrightarrow>
        decode_items f cls (length (x # xs)) (bs @ rest) = Some (Inr (x # xs, rest)))"
      by blast
  qed
next
  case 16
  show ?case
    using Compound_loop_Nil by simp
next
  case (17 name v d)
  show ?case
  proof (intro impI)
    assume ok: "entries_ok ((name, v) # d)"
    then have name: "text_ok name" and ty: "type_of v \<noteq> cls_End" "v \<noteq> TAG_End"
      and wf: "well_formed v" and oks: "entries_ok d"
      by auto
    let ?e = "if type_of v = cls_Compound then [0] else []"
    let ?n = "big_endian 2 (length name) @ str_encode name"
    let ?i = "Number_to_bytes (TAG_Byte (of_nat (ID (type_of v))))"
    from 17(1) wf ty(2) obtain b where b: "to_bytes v = Inr b"
      and decv: "\<forall>f tail. fuel_for v \<le> f \<longrightarrow> (type_of v = cls_Compound \<longrightarrow> tail = [] \<or> hd tail = 0) \<longrightarrow>
          from_bytes f (type_of v) (b @ tail)
            = Some (Inr (v, if type_of v = cls_Compound then tl tail else tail))"
      by blast
    from 17(2) oks obtain bs where bs: "entries_to_bytes d = Inr bs"
      and dec: "\<And>f acc tail. fuel_for_entries d \<le> f \<Longrightarrow> distinct (map fst (acc @ d)) \<Longrightarrow>
            tail = [] \<or> hd tail = 0 \<Longrightarrow>
            Compound_loop f acc (bs @ tail) = Some (Inr (acc @ d, tl tail))"
      by blast
    have "Compound_loop f acc ((?i @ ?n @ b @ ?e @ bs) @ tail) = Some (Inr (acc @ (name, v) # d, tl tail))"
      if f: "fuel_for_entries ((name, v) # d) \<le> f" and dist: "distinct (map fst (acc @ (name, v) # d))"
        and tail: "tail = [] \<or> hd tail = 0" for f acc tail
    proof (rule Compound_loop_Cons [OF name ty(1) _ _ _ f])
      show "name \<notin> fst ` set acc"
        using dist by auto
      show "from_bytes f (type_of v) (b @ ?e @ bs @ tail) = Some (Inr (v, bs @ tail))"
        if "fuel_for v \<le> f" for f
        using nested_form [OF decv that] .
      show "Compound_loop f (acc @ [(name, v)]) (bs @ tail)
          = Some (Inr ((acc @ [(name, v)]) @ d, tl tail))" if "fuel_for_entries d \<le> f" for f
        using that dist tail by (intro dec) simp_all
    qed
    moreover have "entries_to_bytes ((name, v) # d) = Inr (?i @ ?n @ b @ ?e @ bs)"
      using b bs ID_byte(1) [of "type_of v"] String_roundtrip(2) [of name] name
      by (simp add: text_ok_def)
    ultimately show "\<exists>bs. entries_to_bytes ((name, v) # d) = Inr bs \<and>
        (\<forall>f acc tail. fuel_for_entries ((name, v) # d) \<le> f \<longrightarrow> distinct (map fst (acc @ (name, v) # d)) \<longrightarrow>
          tail = [] \<or> hd tail = 0 \<longrightarrow>
          Compound_loop f acc (bs @ tail) = Some (Inr (acc @ (name, v) # d, tl tail)))"
      by blast
  qed
qed

lemma Compound_to_bytes_Cons:
  assumes "well_formed (TAG_Compound ((name, v) # d))"
  shows "\<exists>n b bs. String_to_bytes name = Inr n \<and> to_bytes v = Inr b
      \<and> to_bytes (TAG_Compound d) = Inr bs
      \<and> to_bytes (TAG_Compound ((name, v) # d))
          = Inr (of_nat (ID (type_of v)) # n @ b @ (if type_of v = cls_Compound then [0] else []) @ bs)"
proof -
  from assms have name: "text_ok name" and v: "well_formed v" "v \<noteq> TAG_End" and d: "entries_ok d"
    by auto
  from round_trip_aux(1) [of v] v obtain b where b: "to_bytes v = Inr b"
    by blast
  from round_trip_aux(3) [of d] d obtain bs where bs: "entries_to_bytes d = Inr bs"
    by blast
  have n: "String_to_bytes name = Inr (big_endian 2 (length name) @ str_encode name)"
    using String_roundtrip(2) [of name] name by (simp add: text_ok_def)
  show ?thesis
    using b bs n ID_byte(1) [of "type_of v"] by simp
qed

lemma big_endian_numeral:
  "big_endian (numeral k) v = big_endian (pred_numeral k) (v div 256) @ [of_nat v]"
  unfolding numeral_eq_Suc [of k] by (rule big_endian.simps)

lemma big_endian_1: "big_endian 1 v = [of_nat v]"
  by simp

section \<open>The claims about the region file\<close>

text \<open>
  Claim C5. Whenever \<^verbatim>\<open>Chunk.write\<close> succeeds, the sector count it records in the
  chunk's location entry is exactly \<open>1 + (L + 1) div 4096\<close>, where \<open>L\<close> is the length of
  the compressed payload, and the 4-byte length field stored at the start of the chunk's
  sectors is \<open>L + 1\<close>: it covers the compression scheme byte, stored next, and the
  compressed data, stored after it.
\<close>
theorem sector_count_formula:
  assumes "Chunk_write compress closed xPos zPos payload now file = Inr MCA'"
  shows "\<exists>compression chunkData.
           compress payload compression = Inr chunkData
         \<and> entry_count MCA' (header xPos zPos div 4) = Inr (1 + (length chunkData + 1) div 4096)
         \<and> (let start = 4096 * entry_offset MCA' (header xPos zPos div 4)
            in from_bytes_big (get_slice MCA' start (start + 4)) = length chunkData + 1
             \<and> get_item MCA' (start + 4) = Inr compression
             \<and> get_slice MCA' (start + 5) (start + 5 + length chunkData) = chunkData)"
proof -
  from assms obtain offset compression chunkData where
    st: "compress payload compression = Inr chunkData"
      "entry_offset MCA' (header xPos zPos div 4) = offset"
      "entry_count MCA' (header xPos zPos div 4) = Inr (1 + (length chunkData + 1) div 4096)"
      "from_bytes_big (get_slice MCA' (offset * 4096) (offset * 4096 + 4)) = length chunkData + 1"
      "get_item MCA' (offset * 4096 + 4) = Inr compression"
      "get_slice MCA' (offset * 4096 + 5) (offset * 4096 + 5 + length chunkData) = chunkData"
    by (rule Chunk_write_stored)
  have "4096 * entry_offset MCA' (header xPos zPos div 4) = offset * 4096"
    using st(2) by simp
  then show ?thesis
    using st unfolding Let_def by metis
qed

theorem sector_count_formula_witness:
  "\<exists>MCA'. Chunk_write no_compression False 0 0 (replicate 4500 5) 7 (Some two_chunk_region)
            = Inr MCA'
         \<and> entry_count MCA' (header 0 0 div 4) = Inr 2"
proof -
  from two_chunk_region_write obtain MCA' where
    w: "Chunk_write no_compression False 0 0 (replicate 4500 5) 7 (Some two_chunk_region) = Inr MCA'"
    by blast
  from sector_count_formula [OF w] have "entry_count MCA' (header 0 0 div 4) = Inr 2"
    by (auto simp: no_compression_def)
  with w show ?thesis by blast
qed

text \<open>
  Claim C2. Let a successful \<^verbatim>\<open>Chunk.write\<close> change the slot's sector count by
  \<open>sectorChange \<noteq> 0\<close>. Then the file length changes by exactly
  \<open>sectorChange * 4096\<close>; the shifting block of the method moves every byte at or after the
  old end of the slot by \<open>sectorChange * 4096\<close> positions, and the writes that follow
  it touch nothing but the slot's own location entry, its timestamp and the stored
  payload; so in the written file every such byte is found at its shifted position unless
  the stored payload (\<open>L + 5\<close> bytes from the start of the slot) reaches that position;
  and every other location entry whose offset is greater than this chunk's offset has its
  offset field increased by exactly \<open>sectorChange\<close>, the others keeping theirs.
\<close>
theorem write_shifts_following_chunks:
  assumes w: "Chunk_write compress closed xPos zPos payload now file = Inr MCA'"
    and o: "choose_offset (create_missing file) (header xPos zPos) = Inr (offset, compression)"
    and c: "compress payload compression = Inr chunkData"
    and old: "entry_count (create_missing file) (header xPos zPos div 4) = Inr oldSectorCount"
    and ch: "sectorChange = int (1 + (length chunkData + 1) div 4096) - int oldSectorCount"
    and nz: "sectorChange \<noteq> 0"
  shows "int (length MCA') = int (length (create_missing file)) + sectorChange * 4096
    \<and> (\<exists>MCA1. shift_following offset oldSectorCount sectorChange (create_missing file) = Inr MCA1
          \<and> (\<forall>p. 4096 * (offset + oldSectorCount) \<le> p \<and> p < length (create_missing file)
                 \<longrightarrow> MCA1 ! nat (int p + 4096 * sectorChange) = create_missing file ! p)
          \<and> (\<forall>q<length MCA1.
                 (q < header xPos zPos \<or> header xPos zPos + 4 \<le> q)
               \<and> (q < header xPos zPos + 4096 \<or> header xPos zPos + 4100 \<le> q)
               \<and> (q < offset * 4096 \<or> offset * 4096 + 5 + length chunkData \<le> q)
                 \<longrightarrow> MCA' ! q = MCA1 ! q))
    \<and> (\<forall>p. 4096 * (offset + oldSectorCount) \<le> p \<and> p < length (create_missing file)
             \<and> offset * 4096 + 5 + length chunkData \<le> nat (int p + 4096 * sectorChange)
           \<longrightarrow> MCA' ! nat (int p + 4096 * sectorChange) = create_missing file ! p)
    \<and> (\<forall>i<1024. i \<noteq> header xPos zPos div 4 \<longrightarrow>
           (if entry_offset (create_missing file) i > offset
            then int (entry_offset MCA' i) = int (entry_offset (create_missing file) i) + sectorChange
            else entry_offset MCA' i = entry_offset (create_missing file) i))"
proof -
  define hdr where "hdr = header xPos zPos"
  define MCA where "MCA = create_missing file"
  define new where "new = 1 + (length chunkData + 1) div 4096"
  note h4 = header_div4 [of xPos zPos, folded hdr_def]
  have old': "get_item MCA (hdr + 3) = Inr oldSectorCount"
    using old h4(1) by (simp add: entry_count_def MCA_def hdr_def)
  from w obtain offset' compression' chunkData' oldSectorCount' MCA1 MCA2 where
    d: "choose_offset MCA hdr = Inr (offset', compression')"
      "compress payload compression' = Inr chunkData'"
      "get_item MCA (hdr + 3) = Inr oldSectorCount'"
      "(if int (1 + (length chunkData' + 1) div 4096) - int oldSectorCount' \<noteq> 0
        then shift_following offset' oldSectorCount'
               (int (1 + (length chunkData' + 1) div 4096) - int oldSectorCount') MCA
        else Inr MCA) = Inr MCA1"
      "write_header hdr offset' (1 + (length chunkData' + 1) div 4096) now MCA1 = Inr MCA2"
      "write_data offset' (length chunkData' + 1) compression' chunkData' MCA2 = Inr MCA'"
    unfolding hdr_def MCA_def by (rule Chunk_write_Inr)
  have eq: "offset' = offset" "compression' = compression"
    using d(1) o by (simp_all add: MCA_def hdr_def)
  then have eq2: "chunkData' = chunkData" "oldSectorCount' = oldSectorCount"
    using d(2,3) c old' by simp_all
  have sh: "shift_following offset oldSectorCount sectorChange MCA = Inr MCA1"
    using d(4) nz unfolding eq eq2 ch by simp
  have wh: "write_header hdr offset new now MCA1 = Inr MCA2"
    and wd: "write_data offset (length chunkData + 1) compression chunkData MCA2 = Inr MCA'"
    using d(5,6) unfolding eq eq2 new_def by simp_all
  note co = choose_offset_Inr [OF o [folded MCA_def hdr_def] h4(1)]
  have sum: "int offset + int oldSectorCount + sectorChange = int offset + int new"
    by (simp add: ch new_def)
  then have pos: "0 < int offset + int oldSectorCount + sectorChange"
    by (simp add: new_def)
  note s = shift_following_Inr [OF sh pos co(1)]
  note h = write_header_Inr [OF wh] and dd = write_data_Inr [OF wd]
  have len1: "4096 \<le> length MCA1"
    using h(2) by simp
  have len: "length MCA' = length MCA1"
    using dd(1) h(1) by simp
  have keep: "MCA' ! q = MCA1 ! q"
    if "q < length MCA1" "q < hdr \<or> hdr + 4 \<le> q" "q < hdr + 4096 \<or> hdr + 4100 \<le> q"
       "q < offset * 4096 \<or> offset * 4096 + 5 + length chunkData \<le> q" for q
  proof -
    have "MCA' ! q = MCA2 ! q"
      using dd(6) [of q] that h(1) by simp
    also have "\<dots> = MCA1 ! q"
      using h(8) [of q] that by auto
    finally show ?thesis .
  qed
  have A: "int (length MCA') = int (length MCA) + sectorChange * 4096"
    using s(1) len by simp
  have B: "MCA1 ! nat (int p + 4096 * sectorChange) = MCA ! p"
    if "4096 * (offset + oldSectorCount) \<le> p \<and> p < length MCA" for p
    using s(2) [of p] that by simp
  have C: "MCA' ! nat (int p + 4096 * sectorChange) = MCA ! p"
    if p: "4096 * (offset + oldSectorCount) \<le> p \<and> p < length MCA
        \<and> offset * 4096 + 5 + length chunkData \<le> nat (int p + 4096 * sectorChange)" for p
  proof -
    define q where "q = nat (int p + 4096 * sectorChange)"
    from p have "4096 * (offset + oldSectorCount) \<le> p"
      by simp
    then have "int (4096 * (offset + oldSectorCount)) \<le> int p"
      by (rule of_nat_mono)
    then have "4096 * (int offset + int oldSectorCount + sectorChange) \<le> int p + 4096 * sectorChange"
      by (simp add: algebra_simps)
    then have "int p + 4096 * sectorChange \<ge> 4096 * (int offset + int new)"
      by (simp only: sum)
    then have q: "int q = int p + 4096 * sectorChange" "8192 \<le> q"
      using co(1) by (simp_all add: q_def new_def)
    have "q < length MCA1"
      using s(1) q(1) p by linarith
    moreover have "hdr \<le> 1020"
      unfolding hdr_def by (rule header_le)
    ultimately have "MCA' ! q = MCA1 ! q"
      using q(2) p by (intro keep) (simp_all add: q_def)
    then show ?thesis
      using B [of p] p by (simp add: q_def)
  qed
  have D: "if entry_offset MCA i > offset
            then int (entry_offset MCA' i) = int (entry_offset MCA i) + sectorChange
            else entry_offset MCA' i = entry_offset MCA i"
    if i: "i < 1024" "i \<noteq> hdr div 4" for i
  proof -
    have "entry_offset MCA' i = entry_offset MCA1 i"
    proof (rule entry_offset_cong [OF len])
      fix q assume q: "i * 4 \<le> q" "q < i * 4 + 3" "q < length MCA1"
      have "q < hdr \<or> hdr + 4 \<le> q"
        using q(1,2) i(2) h4(1) by (cases "i < hdr div 4") linarith+
      moreover have "q < 4096"
        using q(2) i(1) by simp
      ultimately show "MCA' ! q = MCA1 ! q"
        using q(3) co(1) by (intro keep) simp_all
    qed
    then show ?thesis
      using s(3) [OF i(1) co(2) len1] by simp
  qed
  show ?thesis
    unfolding hdr_def [symmetric] MCA_def [symmetric]
    using A sh B keep C D by blast
qed

theorem write_shifts_following_chunks_witness:
  "\<exists>MCA'. Chunk_write no_compression False 0 0 (replicate 4500 5) 7 (Some two_chunk_region)
            = Inr MCA'
     \<and> choose_offset (create_missing (Some two_chunk_region)) (header 0 0) = Inr (2, 2)
     \<and> no_compression (replicate 4500 5) 2 = Inr (replicate 4500 5)
     \<and> entry_count (create_missing (Some two_chunk_region)) (header 0 0 div 4) = Inr 1
     \<and> (1::int) = int (1 + (length (replicate 4500 (5::byte)) + 1) div 4096) - int 1
     \<and> length two_chunk_region = 16384 \<and> length MCA' = 20480
     \<and> two_chunk_region ! 12293 = 9 \<and> MCA' ! 16389 = 9
     \<and> entry_offset two_chunk_region 1 = 3 \<and> entry_offset MCA' 1 = 4"
proof -
  from two_chunk_region_write obtain MCA' where
    w: "Chunk_write no_compression False 0 0 (replicate 4500 5) 7 (Some two_chunk_region) = Inr MCA'"
    by blast
  have c: "no_compression (replicate 4500 5) 2 = Inr (replicate 4500 5)"
    by (simp add: no_compression_def)
  have ch: "(1::int) = int (1 + (length (replicate 4500 (5::byte)) + 1) div 4096) - int 1"
    by simp
  have nz: "(1::int) \<noteq> 0"
    by simp
  note t = write_shifts_following_chunks [OF w two_chunk_region_slot(1) c two_chunk_region_slot(2) ch nz]
  have b: "two_chunk_region ! 12293 = 9"
    by (simp add: two_chunk_region_def nth_append)
  have e: "entry_offset two_chunk_region 1 = 3"
    by (simp add: two_chunk_region_entries)
  from t have "int (length MCA') = int (length two_chunk_region) + 4096"
    by (simp add: create_missing_def)
  then have l: "length MCA' = 20480"
    by (simp add: two_chunk_region_length)
  from t have "\<forall>p. 4096 * (2 + 1) \<le> p \<and> p < length two_chunk_region
             \<and> 2 * 4096 + 5 + length (replicate 4500 (5::byte)) \<le> nat (int p + 4096 * 1)
           \<longrightarrow> MCA' ! nat (int p + 4096 * 1) = two_chunk_region ! p"
    by (simp only: create_missing_def option.case) blast
  from this [rule_format, of 12293] have m: "MCA' ! 16389 = 9"
    by (simp add: two_chunk_region_length b)
  have h: "header 0 0 div 4 = 0"
    by (simp add: header_def)
  from t have "\<forall>i<1024. i \<noteq> header 0 0 div 4 \<longrightarrow>
           (if entry_offset two_chunk_region i > 2
            then int (entry_offset MCA' i) = int (entry_offset two_chunk_region i) + 1
            else entry_offset MCA' i = entry_offset two_chunk_region i)"
    by (simp only: create_missing_def option.case) blast
  from this [rule_format, of 1] have "entry_offset MCA' 1 = 4"
    unfolding h e by simp
  with w two_chunk_region_slot c ch l b m e two_chunk_region_length show ?thesis
    by blast
qed

text \<open>
  Claim C3, as amended. \<^verbatim>\<open>Chunk.write\<close> tests the slot's 3-byte offset field, not
  the sector count: when that field is 0, the offset written to the location entry is
  \<open>max(2, highest offset + sector count over the 1024 entries)\<close>, which is 2 for an
  all-zero header; when the field is not 0 (as for every allocated slot) the entry keeps
  its offset, and the compression scheme byte found in the file at that offset is the one
  the payload is compressed with and the one stored again.
\<close>
theorem write_offset_choice:
  assumes "Chunk_write compress closed xPos zPos payload now file = Inr MCA'"
  shows "(entry_offset (create_missing file) (header xPos zPos div 4) = 0 \<longrightarrow>
            entry_offset MCA' (header xPos zPos div 4) = highest_end (create_missing file))
       \<and> ((\<forall>p<4096. create_missing file ! p = 0) \<longrightarrow> entry_offset MCA' (header xPos zPos div 4) = 2)
       \<and> (entry_offset (create_missing file) (header xPos zPos div 4) \<noteq> 0 \<longrightarrow>
            entry_offset MCA' (header xPos zPos div 4)
              = entry_offset (create_missing file) (header xPos zPos div 4)
          \<and> (\<exists>compression chunkData.
                get_item (create_missing file)
                  (4096 * entry_offset (create_missing file) (header xPos zPos div 4) + 4)
                  = Inr compression
              \<and> compress payload compression = Inr chunkData
              \<and> get_item MCA' (4096 * entry_offset MCA' (header xPos zPos div 4) + 4)
                  = Inr compression
              \<and> get_slice MCA' (4096 * entry_offset MCA' (header xPos zPos div 4) + 5)
                   (4096 * entry_offset MCA' (header xPos zPos div 4) + 5 + length chunkData)
                  = chunkData))"
proof -
  define MCA where "MCA = create_missing file"
  define e where "e = header xPos zPos div 4"
  from assms obtain offset compression chunkData where
    st: "choose_offset MCA (header xPos zPos) = Inr (offset, compression)"
      "compress payload compression = Inr chunkData"
      "entry_offset MCA' e = offset"
      "get_item MCA' (offset * 4096 + 4) = Inr compression"
      "get_slice MCA' (offset * 4096 + 5) (offset * 4096 + 5 + length chunkData) = chunkData"
    unfolding MCA_def e_def by (rule Chunk_write_stored)
  note co = choose_offset_Inr [OF st(1) header_div4(1), folded e_def]
  have comm: "4096 * offset = offset * 4096"
    by simp
  have A: "entry_offset MCA' e = highest_end MCA" if "entry_offset MCA e = 0"
    using co(3) [OF that] st(3) by simp
  have B: "entry_offset MCA' e = 2" if z: "\<forall>p<4096. MCA ! p = 0"
  proof -
    have "\<forall>b\<in>set (get_slice MCA (e * 4) (e * 4 + 3)). b = 0"
      using z co(2) header_div4(2) [of xPos zPos, folded e_def]
      by (auto simp: get_slice_def in_set_conv_nth)
    then have "entry_offset MCA e = 0"
      unfolding entry_offset_def by (rule from_bytes_big_zero)
    then show ?thesis
      using A highest_end_zero [OF z co(2)] by simp
  qed
  have C: "entry_offset MCA' e = entry_offset MCA e
      \<and> (\<exists>compression chunkData.
            get_item MCA (4096 * entry_offset MCA e + 4) = Inr compression
          \<and> compress payload compression = Inr chunkData
          \<and> get_item MCA' (4096 * entry_offset MCA' e + 4) = Inr compression
          \<and> get_slice MCA' (4096 * entry_offset MCA' e + 5)
               (4096 * entry_offset MCA' e + 5 + length chunkData) = chunkData)"
    if "entry_offset MCA e \<noteq> 0"
  proof -
    from co(4) [OF that] have o: "offset = entry_offset MCA e"
      and g: "get_item MCA (4096 * offset + 4) = Inr compression"
      by blast+
    have o': "entry_offset MCA' e = entry_offset MCA e"
      using st(3) o by simp
    have "get_item MCA' (4096 * offset + 4) = Inr compression"
      "get_slice MCA' (4096 * offset + 5) (4096 * offset + 5 + length chunkData) = chunkData"
      using st(4,5) by (simp_all only: comm)
    then show ?thesis
      using o' g st(2) unfolding st(3) o by blast
  qed
  show ?thesis
    unfolding MCA_def [symmetric] e_def [symmetric] using A B C by blast
qed

theorem write_offset_choice_witness:
  "(\<exists>MCA'. Chunk_write no_compression False 0 0 [1, 2, 3] 7 None = Inr MCA'
      \<and> entry_offset (create_missing None) (header 0 0 div 4) = 0
      \<and> (\<forall>p<4096. create_missing None ! p = 0)
      \<and> entry_offset MCA' (header 0 0 div 4) = 2)
   \<and> (\<exists>MCA'. Chunk_write no_compression False 0 0 (replicate 4500 5) 7 (Some two_chunk_region)
                = Inr MCA'
      \<and> entry_offset (create_missing (Some two_chunk_region)) (header 0 0 div 4) = 2
      \<and> get_item two_chunk_region 8196 = Inr 2
      \<and> entry_offset MCA' (header 0 0 div 4) = 2
      \<and> get_item MCA' 8196 = Inr 2)"
proof
  from new_region_write obtain MCA' where
    w: "Chunk_write no_compression False 0 0 [1, 2, 3] 7 None = Inr MCA'"
    by blast
  have z: "\<forall>p<4096. create_missing None ! p = 0"
    by (simp add: create_missing_def)
  from write_offset_choice [OF w] z have "entry_offset MCA' (header 0 0 div 4) = 2"
    by blast
  with w z new_region_slot(3) show "\<exists>MCA'. Chunk_write no_compression False 0 0 [1, 2, 3] 7 None = Inr MCA'
      \<and> entry_offset (create_missing None) (header 0 0 div 4) = 0
      \<and> (\<forall>p<4096. create_missing None ! p = 0)
      \<and> entry_offset MCA' (header 0 0 div 4) = 2"
    by blast
next
  from two_chunk_region_write obtain MCA' where
    w: "Chunk_write no_compression False 0 0 (replicate 4500 5) 7 (Some two_chunk_region) = Inr MCA'"
    by blast
  have h: "header 0 0 div 4 = 0"
    by (simp add: header_def)
  have e: "entry_offset (create_missing (Some two_chunk_region)) (header 0 0 div 4) = 2"
    by (simp add: h create_missing_def two_chunk_region_entries)
  have g: "get_item two_chunk_region 8196 = Inr 2"
    by (simp add: get_item_def two_chunk_region_length) (simp add: two_chunk_region_def nth_append)
  from write_offset_choice [OF w] e have
    "entry_offset MCA' (header 0 0 div 4) = 2
     \<and> (\<exists>compression chunkData.
          get_item (create_missing (Some two_chunk_region)) (4096 * 2 + 4) = Inr compression
        \<and> get_item MCA' (4096 * entry_offset MCA' (header 0 0 div 4) + 4) = Inr compression)"
    by (simp only:) auto
  then have "entry_offset MCA' (header 0 0 div 4) = 2 \<and> get_item MCA' 8196 = Inr 2"
    using g by (auto simp: create_missing_def)
  with w e g show "\<exists>MCA'. Chunk_write no_compression False 0 0 (replicate 4500 5) 7 (Some two_chunk_region)
                = Inr MCA'
      \<and> entry_offset (create_missing (Some two_chunk_region)) (header 0 0 div 4) = 2
      \<and> get_item two_chunk_region 8196 = Inr 2
      \<and> entry_offset MCA' (header 0 0 div 4) = 2
      \<and> get_item MCA' 8196 = Inr 2"
    by blast
qed

text \<open>
  The claim as stated fails for a slot that is absent by the format's rule (offset below 2
  or sector count 0) but has a non-zero offset field: the entry \<open>(offset 1, count 0)\<close> is
  kept at offset 1, below the highest used sector.
\<close>

theorem absent_slot_counterexample:
  "entry_offset ([0, 0, 1, 0] @ replicate 8188 0) (header 0 0 div 4) < 2
   \<and> entry_count ([0, 0, 1, 0] @ replicate 8188 0) (header 0 0 div 4) = Inr 0
   \<and> choose_offset ([0, 0, 1, 0] @ replicate 8188 0) (header 0 0) = Inr (1, 0)
   \<and> 1 < highest_end ([0, 0, 1, 0] @ replicate 8188 0)"
proof -
  have h: "header 0 0 = 0"
    by (simp add: header_def)
  have "2 \<le> highest_end ([0, 0, 1, 0] @ replicate 8188 0)"
    unfolding highest_end_def by (rule Max_ge) simp_all
  then show ?thesis
    by (simp add: h entry_offset_def entry_count_def choose_offset_def get_slice_def get_item_def
          from_bytes_big_def nth_append)
qed

text \<open>
  Claim C4. The claim places the location entry of chunk \<open>(x, z)\<close> at byte
  \<open>4 * ((x mod 32) + 32 * (z mod 32))\<close> and reports a chunk absent when its offset is
  below 2. The code reduces the position modulo 1024, so chunk \<open>(0, 8)\<close> is addressed at
  byte 0, the entry of chunk \<open>(0, 0)\<close>, and not at byte 1024; and \<^verbatim>\<open>Chunk.open\<close> compares
  the offset with 2 after multiplying it by 4096, so an entry with sector offset 1 and
  sector count 1 is read, not reported absent.
\<close>
theorem header_position_wraps:
  "header 0 8 = 0 \<and> header 0 8 \<noteq> 4 * (nat (0 mod 32) + 32 * nat (8 mod 32))
   \<and> header 0 8 = header 0 0
   \<and> Chunk_open 0 0 ([0, 0, 1, 1] @ replicate 8188 0) = Inr (0, 0, [])"
proof -
  have z: "from_bytes_big (replicate 4 0) = 0"
    by (rule from_bytes_big_zero) simp
  have o: "from_bytes_big [0, 0, 1] = 1"
    by (simp add: from_bytes_big_def)
  show ?thesis
    by (simp add: header_def Chunk_open_def get_slice_def get_item_def nth_append z o)
qed

section \<open>The claims about the tag codec\<close>

text \<open>
  Claim C7, as amended. The length prefix of a TAG_String is a TAG_Short, a signed 16-bit
  big-endian integer. For every text of at most 32767 UTF-8 bytes, \<^verbatim>\<open>to_bytes\<close> gives
  the two length bytes followed by the UTF-8 bytes, and \<^verbatim>\<open>from_bytes\<close> reads the length
  and exactly that many bytes, decodes them as UTF-8 and leaves the rest of the input. A
  text of more than 32767 bytes cannot be held by a TAG_String: building it raises
  \<^verbatim>\<open>struct.error\<close>, so there is nothing to encode.
\<close>
theorem String_length_prefix:
  "(length s \<le> 32767 \<and> valid_utf8 (str_encode s) \<longrightarrow>
       String_init s = Inr (TAG_String s)
     \<and> to_bytes (TAG_String s) = Inr (big_endian 2 (length (str_encode s)) @ str_encode s)
     \<and> (\<forall>rest. String_from_bytes (big_endian 2 (length (str_encode s)) @ str_encode s @ rest)
                 = Inr (TAG_String s, rest)))
   \<and> (32767 < length (str_encode s) \<longrightarrow>
         String_init s = Inl StructError \<and> to_bytes (TAG_String s) = Inl StructError)"
  using String_roundtrip [of s] String_init_too_long [of s] by simp

theorem String_length_prefix_witness:
  "length ''Level'' \<le> 32767 \<and> valid_utf8 (str_encode ''Level'')
   \<and> to_bytes (TAG_String ''Level'') = Inr [0, 5, 76, 101, 118, 101, 108]
   \<and> String_from_bytes [0, 5, 76, 101, 118, 101, 108, 9] = Inr (TAG_String ''Level'', [9])
   \<and> 32767 < length (str_encode (replicate 32768 CHR ''A''))
   \<and> String_init (replicate 32768 CHR ''A'') = Inl StructError"
proof -
  have e: "str_encode ''Level'' = [76, 101, 118, 101, 108]"
    by (simp add: str_encode_def)
  have v: "valid_utf8 (str_encode ''Level'')"
    unfolding e by simp
  have b: "big_endian 2 (length [76, 101, 118, 101, 108 :: byte]) = [0, 5]"
    by (simp add: numeral_2_eq_2)
  have l: "length ''Level'' \<le> 32767"
    by simp
  from String_length_prefix [of "''Level''"] l v have
    "to_bytes (TAG_String ''Level'') = Inr (big_endian 2 (length (str_encode ''Level'')) @ str_encode ''Level'')"
    "String_from_bytes (big_endian 2 (length (str_encode ''Level'')) @ str_encode ''Level'' @ [9])
       = Inr (TAG_String ''Level'', [9])"
    by blast+
  then have 1: "to_bytes (TAG_String ''Level'') = Inr [0, 5, 76, 101, 118, 101, 108]"
    and 2: "String_from_bytes [0, 5, 76, 101, 118, 101, 108, 9] = Inr (TAG_String ''Level'', [9])"
    by (simp_all only: b e append_Cons append_Nil to_bytes.simps)
  have 3: "32767 < length (str_encode (replicate 32768 CHR ''A''))"
    by simp
  with String_length_prefix [of "replicate 32768 CHR ''A''"]
  have "String_init (replicate 32768 CHR ''A'') = Inl StructError"
    by blast
  with l v 1 2 3 show ?thesis
    by blast
qed

text \<open>
  The claim as stated fails at 32768 bytes, a length below 65535: the text cannot be
  encoded, and its encoding with an unsigned length, \<open>0x80 0x00\<close> followed by the bytes,
  is read as length \<open>-32768\<close> and decoded as the empty text with all the bytes left over.
\<close>

theorem String_length_prefix_counterexample:
  "length (str_encode (replicate 32768 CHR ''A'')) \<le> 65535
   \<and> to_bytes (TAG_String (replicate 32768 CHR ''A'')) = Inl StructError
   \<and> String_from_bytes ([0x80, 0x00] @ str_encode (replicate 32768 CHR ''A''))
       = Inr (TAG_String [], str_encode (replicate 32768 CHR ''A''))"
proof -
  have n: "Number_from_bytes cls_Short (0x80 # 0x00 # str_encode (replicate 32768 CHR ''A''))
      = Inr (TAG_Short (- 32768), str_encode (replicate 32768 CHR ''A''))"
    by (simp add: Number_from_bytes_def read_bytes_def unpack_int_def from_bytes_big_def pack_int_def)
  have s: "sint (- 32768 :: 16 word) = - 32768"
    by simp
  show ?thesis
    by (simp add: String_to_bytes_def pack_int_def String_from_bytes_def n s read_bytes_def
          bytes_decode_def String_init_def)
qed




text \<open>
  Claim C10. \<^verbatim>\<open>insert\<close> on a list or an array puts the value itself into the
  sequence, at the position a Python slice bound \<open>key\<close> denotes (which is \<open>key\<close> itself
  for \<open>0 \<le> key \<le> len\<close>), with the elements before it unchanged and those after it moved
  up by one; nothing is converted or checked. So it can place a tag of another kind into
  a non-empty list or into an array, where \<^verbatim>\<open>append\<close> and index assignment store the
  converted value.
\<close>
theorem insert_stores_value_unconverted:
  "(items self = Some xs \<longrightarrow>
      (\<exists>ys. insert_tag self key v = Inr (make_sequence (type_of self) ys)
          \<and> length ys = length xs + 1
          \<and> ys ! slice_bound key (length xs) = v
          \<and> (0 \<le> key \<and> key \<le> int (length xs) \<longrightarrow> ys ! nat key = v)
          \<and> (\<forall>i < slice_bound key (length xs). ys ! i = xs ! i)
          \<and> (\<forall>i. slice_bound key (length xs) \<le> i \<and> i < length xs \<longrightarrow> ys ! Suc i = xs ! i)))
   \<and> insert_tag (TAG_List [TAG_Int 1]) 1 (TAG_Byte 5) = Inr (TAG_List [TAG_Int 1, TAG_Byte 5])
   \<and> append_tag (TAG_List [TAG_Int 1]) (TAG_Byte 5) = Inr (TAG_List [TAG_Int 1, TAG_Int 5])
   \<and> setitem (TAG_List [TAG_Int 1]) 0 (TAG_Byte 5) = Inr (TAG_List [TAG_Int 5])
   \<and> insert_tag (TAG_Int_Array [TAG_Int 1]) 0 (TAG_String ''x'')
       = Inr (TAG_Int_Array [TAG_String ''x'', TAG_Int 1])"
proof -
  have G: "\<exists>ys. insert_tag self key v = Inr (make_sequence (type_of self) ys)
          \<and> length ys = length xs + 1
          \<and> ys ! slice_bound key (length xs) = v
          \<and> (0 \<le> key \<and> key \<le> int (length xs) \<longrightarrow> ys ! nat key = v)
          \<and> (\<forall>i < slice_bound key (length xs). ys ! i = xs ! i)
          \<and> (\<forall>i. slice_bound key (length xs) \<le> i \<and> i < length xs \<longrightarrow> ys ! Suc i = xs ! i)"
    if s: "items self = Some xs"
  proof -
    define p where "p = slice_bound key (length xs)"
    define ys where "ys = take p xs @ [v] @ drop p xs"
    have p: "p \<le> length xs"
      by (auto simp: p_def slice_bound_def)
    have 1: "insert_tag self key v = Inr (make_sequence (type_of self) ys)"
      using s by (simp add: insert_tag_def ys_def p_def)
    have 2: "length ys = length xs + 1"
      using p by (simp add: ys_def)
    have 3: "ys ! p = v"
      using p by (simp add: ys_def nth_append)
    have 4: "ys ! nat key = v" if "0 \<le> key \<and> key \<le> int (length xs)"
    proof -
      from that have "p = nat key"
        by (auto simp: p_def slice_bound_def)
      with 3 show ?thesis by simp
    qed
    have 5: "ys ! i = xs ! i" if "i < p" for i
      using that p by (simp add: ys_def nth_append)
    have 6: "ys ! Suc i = xs ! i" if "p \<le> i \<and> i < length xs" for i
    proof -
      have "ys ! Suc i = ([v] @ drop p xs) ! (Suc i - p)"
        using that p by (simp add: ys_def nth_append)
      also have "\<dots> = drop p xs ! (i - p)"
        using that by (simp add: Suc_diff_le)
      also have "\<dots> = xs ! i"
        using that p by simp
      finally show ?thesis .
    qed
    show ?thesis
    proof (intro exI [of _ ys] conjI allI impI)
      show "insert_tag self key v = Inr (make_sequence (type_of self) ys)" by (rule 1)
      show "length ys = length xs + 1" by (rule 2)
      show "ys ! slice_bound key (length xs) = v" using 3 by (simp add: p_def)
      show "ys ! nat key = v" if "0 \<le> key \<and> key \<le> int (length xs)" using 4 that by simp
      show "ys ! i = xs ! i" if "i < slice_bound key (length xs)" for i
        using 5 that by (simp add: p_def)
      show "ys ! Suc i = xs ! i" if "slice_bound key (length xs) \<le> i \<and> i < length xs" for i
        using 6 that by (simp add: p_def)
    qed
  qed
  have H: "insert_tag (TAG_List [TAG_Int 1]) 1 (TAG_Byte 5) = Inr (TAG_List [TAG_Int 1, TAG_Byte 5])"
    "insert_tag (TAG_Int_Array [TAG_Int 1]) 0 (TAG_String ''x'')
       = Inr (TAG_Int_Array [TAG_String ''x'', TAG_Int 1])"
    by (simp_all add: insert_tag_def slice_bound_def make_sequence_def)
  have I: "append_tag (TAG_List [TAG_Int 1]) (TAG_Byte 5) = Inr (TAG_List [TAG_Int 1, TAG_Int 5])"
    by (simp add: append_tag_def elementType_def construct.simps is_integer_def pack_int_def
          make_sequence_def)
  have J: "setitem (TAG_List [TAG_Int 1]) 0 (TAG_Byte 5) = Inr (TAG_List [TAG_Int 5])"
    by (simp add: setitem_def elementType_def construct.simps is_integer_def pack_int_def
          make_sequence_def list_index_def)
  show ?thesis
    using G H I J by blast
qed

theorem insert_stores_value_unconverted_witness:
  "items (TAG_Byte_Array [TAG_Byte 1, TAG_Byte 2]) = Some [TAG_Byte 1, TAG_Byte 2]
   \<and> (0::int) \<le> 1 \<and> (1::int) \<le> int (length [TAG_Byte 1, TAG_Byte 2])
   \<and> insert_tag (TAG_Byte_Array [TAG_Byte 1, TAG_Byte 2]) 1 (TAG_Long 7)
       = Inr (TAG_Byte_Array [TAG_Byte 1, TAG_Long 7, TAG_Byte 2])"
proof -
  have i: "items (TAG_Byte_Array [TAG_Byte 1, TAG_Byte 2]) = Some [TAG_Byte 1, TAG_Byte 2]"
    by simp
  let ?xs = "[TAG_Byte 1, TAG_Byte 2]"
  have sb: "slice_bound 1 (length ?xs) = 1"
    by (simp add: slice_bound_def)
  from insert_stores_value_unconverted [of "TAG_Byte_Array ?xs" ?xs 1 "TAG_Long 7"] i
  obtain ys where a: "insert_tag (TAG_Byte_Array ?xs) 1 (TAG_Long 7)
        = Inr (make_sequence (type_of (TAG_Byte_Array ?xs)) ys)"
    and b: "length ys = length ?xs + 1"
    and c: "ys ! slice_bound 1 (length ?xs) = TAG_Long 7"
    and d: "\<forall>i < slice_bound 1 (length ?xs). ys ! i = ?xs ! i"
    and e: "\<forall>i. slice_bound 1 (length ?xs) \<le> i \<and> i < length ?xs \<longrightarrow> ys ! Suc i = ?xs ! i"
    by blast
  have ys: "insert_tag (TAG_Byte_Array ?xs) 1 (TAG_Long 7) = Inr (make_sequence cls_Byte_Array ys)"
    "length ys = Suc (Suc (Suc 0))" "ys ! Suc 0 = TAG_Long 7" "ys ! 0 = TAG_Byte 1"
    "ys ! Suc (Suc 0) = TAG_Byte 2"
    using a b c d [rule_format, of 0] e [rule_format, of 1] unfolding sb
    by simp_all
  from ys(2-5) have "ys = [TAG_Byte 1, TAG_Long 7, TAG_Byte 2]"
    by (intro nth_equalityI) (auto simp: less_Suc_eq)
  with ys(1) i show ?thesis
    by (simp add: make_sequence_def)
qed

text \<open>
  Claim C1, as amended. For every well-formed tag of every kind, \<^verbatim>\<open>to_bytes\<close> succeeds and
  \<^verbatim>\<open>from_bytes\<close> of its class, given fuel enough for the nesting of the tag, returns
  a result, and the result is the tag itself: the same kind, the same value (boundary
  values included: a number is any value of its width), the same elements in the same
  order, and for a compound the same names in the same order with the same values,
  nested compounds included. Read on their own, the bytes of a tag are used up, except
  that a TAG_End, which writes one zero byte, reads nothing. Inside other data every tag but
  a compound is read back from its bytes alone, and a compound from its bytes followed
  by the byte of TAG_End, which the compound does not write itself: the encoding of an
  empty compound is empty, and the encoding of a compound is, entry by entry, the ID
  byte of the value, the name, the bytes of the value, and the byte of TAG_End exactly
  when the value is a compound. A Float or Double is its four or eight stored bytes, and
  the statement is about a value that is not a NaN.
\<close>
theorem tag_round_trip:
  "(well_formed t \<and> fuel_for t \<le> fuel \<longrightarrow>
      (\<exists>bs. to_bytes t = Inr bs
         \<and> from_bytes fuel (type_of t) bs = Some (Inr (t, if t = TAG_End then bs else []))
         \<and> (t \<noteq> TAG_End \<longrightarrow>
              (\<forall>rest. from_bytes fuel (type_of t)
                         (bs @ (if type_of t = cls_Compound then [0] else []) @ rest)
                       = Some (Inr (t, rest))))))
   \<and> to_bytes (TAG_Compound []) = Inr []
   \<and> (well_formed (TAG_Compound ((name, v) # d)) \<longrightarrow>
        (\<exists>n b bs. String_to_bytes name = Inr n \<and> to_bytes v = Inr b
           \<and> to_bytes (TAG_Compound d) = Inr bs
           \<and> to_bytes (TAG_Compound ((name, v) # d))
               = Inr (of_nat (ID (type_of v)) # n @ b
                      @ (if type_of v = cls_Compound then [0] else []) @ bs)))"
proof (intro conjI impI)
  assume a: "well_formed t \<and> fuel_for t \<le> fuel"
  show "\<exists>bs. to_bytes t = Inr bs
         \<and> from_bytes fuel (type_of t) bs = Some (Inr (t, if t = TAG_End then bs else []))
         \<and> (t \<noteq> TAG_End \<longrightarrow>
              (\<forall>rest. from_bytes fuel (type_of t)
                         (bs @ (if type_of t = cls_Compound then [0] else []) @ rest)
                       = Some (Inr (t, rest))))"
  proof (cases "t = TAG_End")
    case True
    obtain f' where "fuel = Suc f'"
      using a True by (cases fuel) simp_all
    with True show ?thesis
      by simp
  next
    case False
    with a round_trip_aux(1) [of t] obtain bs where bs: "to_bytes t = Inr bs"
      and dec: "\<forall>f tail. fuel_for t \<le> f \<longrightarrow> (type_of t = cls_Compound \<longrightarrow> tail = [] \<or> hd tail = 0) \<longrightarrow>
          from_bytes f (type_of t) (bs @ tail)
            = Some (Inr (t, if type_of t = cls_Compound then tl tail else tail))"
      by blast
    have "from_bytes fuel (type_of t) bs = Some (Inr (t, []))"
      using dec [rule_format, of fuel "[]"] a by simp
    moreover have "from_bytes fuel (type_of t) (bs @ (if type_of t = cls_Compound then [0] else []) @ rest)
        = Some (Inr (t, rest))" for rest
      using a by (intro nested_form [OF dec]) simp
    ultimately show ?thesis
      using bs False by simp
  qed
next
  show "to_bytes (TAG_Compound []) = Inr []"
    by simp
next
  assume "well_formed (TAG_Compound ((name, v) # d))"
  then show "\<exists>n b bs. String_to_bytes name = Inr n \<and> to_bytes v = Inr b
           \<and> to_bytes (TAG_Compound d) = Inr bs
           \<and> to_bytes (TAG_Compound ((name, v) # d))
               = Inr (of_nat (ID (type_of v)) # n @ b
                      @ (if type_of v = cls_Compound then [0] else []) @ bs)"
    by (rule Compound_to_bytes_Cons)
qed

theorem tag_round_trip_witness:
  "well_formed nested_example \<and> fuel_for nested_example \<le> 6
   \<and> to_bytes nested_example
       = Inr [10, 0, 1, 98, 1, 0, 1, 89, 255, 0,
              9, 0, 1, 97, 2, 0, 0, 0, 1, 0, 1,
              6, 0, 1, 99, 0x7F, 0xF0, 0, 0, 0, 0, 0, 0]
   \<and> from_bytes 6 cls_Compound
         [10, 0, 1, 98, 1, 0, 1, 89, 255, 0,
          9, 0, 1, 97, 2, 0, 0, 0, 1, 0, 1,
          6, 0, 1, 99, 0x7F, 0xF0, 0, 0, 0, 0, 0, 0]
       = Some (Inr (nested_example, []))
   \<and> from_bytes 6 cls_Compound
         ([10, 0, 1, 98, 1, 0, 1, 89, 255, 0,
           9, 0, 1, 97, 2, 0, 0, 0, 1, 0, 1,
           6, 0, 1, 99, 0x7F, 0xF0, 0, 0, 0, 0, 0, 0] @ [0, 9])
       = Some (Inr (nested_example, [9]))
   \<and> to_bytes (TAG_Compound [(''Y'', TAG_Byte 255)]) = Inr [1, 0, 1, 89, 255]"
proof -
  have wf: "well_formed nested_example"
    by (simp add: nested_example_def text_ok_def str_encode_def elementType_def Double_nan_def)
  have fuel: "fuel_for nested_example \<le> 6"
    by (simp add: nested_example_def)
  have inner: "to_bytes (TAG_Compound [(''Y'', TAG_Byte 255)]) = Inr [1, 0, 1, 89, 255]"
    by (simp add: pack_int_def String_to_bytes_def str_encode_def big_endian_numeral big_endian_1)
  have enc: "to_bytes nested_example
       = Inr [10, 0, 1, 98, 1, 0, 1, 89, 255, 0,
              9, 0, 1, 97, 2, 0, 0, 0, 1, 0, 1,
              6, 0, 1, 99, 0x7F, 0xF0, 0, 0, 0, 0, 0, 0]"
    by (simp add: nested_example_def pack_int_def String_to_bytes_def str_encode_def
          elementType_def big_endian_numeral big_endian_1)
  have ty: "type_of nested_example = cls_Compound" "nested_example \<noteq> TAG_End"
    by (simp_all add: nested_example_def)
  from tag_round_trip [of nested_example 6] wf fuel
  obtain bs where bs: "to_bytes nested_example = Inr bs"
    and top: "from_bytes 6 (type_of nested_example) bs
        = Some (Inr (nested_example, if nested_example = TAG_End then bs else []))"
    and nested: "nested_example \<noteq> TAG_End \<longrightarrow>
        (\<forall>rest. from_bytes 6 (type_of nested_example)
                   (bs @ (if type_of nested_example = cls_Compound then [0] else []) @ rest)
                 = Some (Inr (nested_example, rest)))"
    by blast
  from bs enc have b: "bs = [10, 0, 1, 98, 1, 0, 1, 89, 255, 0,
              9, 0, 1, 97, 2, 0, 0, 0, 1, 0, 1,
              6, 0, 1, 99, 0x7F, 0xF0, 0, 0, 0, 0, 0, 0]"
    by simp
  from nested ty have "from_bytes 6 cls_Compound (bs @ [0] @ [9]) = Some (Inr (nested_example, [9]))"
    by simp
  then have n: "from_bytes 6 cls_Compound (bs @ [0, 9]) = Some (Inr (nested_example, [9]))"
    by simp
  from top ty have t: "from_bytes 6 cls_Compound bs = Some (Inr (nested_example, []))"
    by simp
  from wf fuel enc t n inner show ?thesis
    unfolding b by blast
qed

text \<open>
  The claim as stated, for every tag, fails on tags that the classes let a caller build.
  \<^verbatim>\<open>insert\<close> stores a TAG_Short in a list of TAG_Byte; the list is written with the
  element ID of its first element, so its bytes are read back as two TAG_Byte with a byte
  left over. A compound holding a TAG_End is read back as the empty compound, because
  the ID byte of its entry ends the loop.
\<close>

theorem tag_round_trip_counterexample:
  "insert_tag (TAG_List [TAG_Byte 1]) 1 (TAG_Short 2) = Inr (TAG_List [TAG_Byte 1, TAG_Short 2])
   \<and> to_bytes (TAG_List [TAG_Byte 1, TAG_Short 2]) = Inr [1, 0, 0, 0, 2, 1, 0, 2]
   \<and> from_bytes 4 cls_List [1, 0, 0, 0, 2, 1, 0, 2]
       = Some (Inr (TAG_List [TAG_Byte 1, TAG_Byte 0], [2]))
   \<and> to_bytes (TAG_Compound [(''a'', TAG_End)]) = Inr [0, 0, 1, 97, 0]
   \<and> from_bytes 2 cls_Compound [0, 0, 1, 97, 0] = Some (Inr (TAG_Compound [], [0, 1, 97, 0]))"
proof -
  have 1: "insert_tag (TAG_List [TAG_Byte 1]) 1 (TAG_Short 2) = Inr (TAG_List [TAG_Byte 1, TAG_Short 2])"
    by (simp add: insert_tag_def slice_bound_def make_sequence_def)
  have 2: "to_bytes (TAG_List [TAG_Byte 1, TAG_Short 2]) = Inr [1, 0, 0, 0, 2, 1, 0, 2]"
    by (simp add: pack_int_def elementType_def big_endian_numeral big_endian_1)
  have b1: "Number_from_bytes cls_Byte (1 # rest) = Inr (TAG_Byte 1, rest)" for rest
    by (simp add: Number_from_bytes_def read_bytes_def unpack_int_def from_bytes_big_def pack_int_def)
  have b0: "Number_from_bytes cls_Byte (0 # rest) = Inr (TAG_Byte 0, rest)" for rest
    by (simp add: Number_from_bytes_def read_bytes_def unpack_int_def from_bytes_big_def pack_int_def)
  have ec: "element_class cls_List [1, 0, 0, 0, 2, 1, 0, 2] = Inr (cls_Byte, [0, 0, 0, 2, 1, 0, 2])"
    by (simp add: element_class_def b1 from_ID_def IDtable_def)
  have rl: "read_length [0, 0, 0, 2, 1, 0, 2] = Inr (2, [1, 0, 2])"
    by (simp add: read_length_def Number_from_bytes_def read_bytes_def unpack_int_def
          from_bytes_big_def pack_int_def)
  have di: "decode_items (Suc (Suc (Suc 0))) cls_Byte 2 [1, 0, 2]
      = Some (Inr ([TAG_Byte 1, TAG_Byte 0], [2]))"
    by (simp add: b1 b0 is_integer_def)
  have init: "init_items cls_List [] [TAG_Byte 1, TAG_Byte 0] = Inr [TAG_Byte 1, TAG_Byte 0]"
    by (simp add: elementType_def construct.simps is_integer_def pack_int_def)
  have f4: "(4::nat) = Suc (Suc (Suc (Suc 0)))"
    by simp
  have 3: "from_bytes 4 cls_List [1, 0, 0, 0, 2, 1, 0, 2]
       = Some (Inr (TAG_List [TAG_Byte 1, TAG_Byte 0], [2]))"
    unfolding f4 from_bytes.simps
    by (simp only: ec rl di init bind_fuel_simps bind_result_simps prod.case)
      (simp add: is_integer_def is_decimal_def make_sequence_def)
  have 4: "to_bytes (TAG_Compound [(''a'', TAG_End)]) = Inr [0, 0, 1, 97, 0]"
    by (simp add: pack_int_def String_to_bytes_def str_encode_def big_endian_numeral big_endian_1)
  have ic: "item_class (TAG_Byte 0) = Inr cls_End"
    by (simp add: item_class_def from_ID_def IDtable_def)
  have f2: "(2::nat) = Suc (Suc 0)"
    by simp
  have 5: "from_bytes 2 cls_Compound [0, 0, 1, 97, 0]
      = Some (Inr (TAG_Compound [], [0, 1, 97, 0]))"
    unfolding f2 by (simp add: b0 ic is_integer_def is_decimal_def)
  from 1 2 3 4 5 show ?thesis
    by blast
qed

section \<open>The claims about the block lookup\<close>

text \<open>
  Claim C6 fails in the code. For coordinates within the chunk, a section found for
  \<open>y div 16\<close> that has a palette of fewer than \<open>2^64\<close> entries and a \<^verbatim>\<open>BlockStates\<close>
  sequence that holds a number, which is every packed array with at least one Long,
  \<^verbatim>\<open>get_block\<close> returns no palette entry: it raises AttributeError. Before it reads
  the packed Long it runs \<^verbatim>\<open>print(section['BlockStates'])\<close>, and the text form of a
  number reads the attribute \<^verbatim>\<open>suffixes\<close>, which no class defines.
\<close>
theorem get_block_print_raises:
  assumes bounds: "0 \<le> x \<and> x \<le> 15 \<and> 0 \<le> y \<and> y \<le> 255 \<and> 0 \<le> z \<and> z \<le> 15"
    and secs: "Sections self = Inr sections"
    and sec: "find_section sections (y div 16) = Inr (Some section)"
    and palette: "getitem section ''Palette'' = Inr palette" "py_len palette = Inr paletteSize"
      "paletteSize < 2 ^ 64"
    and states: "getitem section ''BlockStates'' = Inr states" "items states = Some longs"
    and number: "elem \<in> set longs" "is_integer (type_of elem) \<or> is_decimal (type_of elem)"
  shows "get_block self x y z = Inl AttributeError"
proof -
  have "py_str states = Inl AttributeError"
    using states(2) number by (rule py_str_raises)
  with palette(3) states(1) have "read_block section paletteSize x (y mod 16) z = Inl AttributeError"
    by (rule read_block_print_raises)
  then show ?thesis
    using bounds secs sec palette(1,2) by (simp add: get_block_def)
qed

theorem get_block_print_raises_witness:
  "Sections (example_chunk [example_section]) = Inr [example_section]
   \<and> find_section [example_section] (0 div 16) = Inr (Some example_section)
   \<and> getitem example_section ''Palette''
       = Inr (TAG_List [named_block ''minecraft:air'', named_block ''minecraft:stone'',
                        named_block ''minecraft:dirt''])
   \<and> py_len (TAG_List [named_block ''minecraft:air'', named_block ''minecraft:stone'',
                        named_block ''minecraft:dirt'']) = Inr 3
   \<and> getitem example_section ''BlockStates'' = Inr (TAG_Long_Array [TAG_Long 0x1234567890ABCDEF])
   \<and> TAG_Long 0x1234567890ABCDEF \<in> set [TAG_Long 0x1234567890ABCDEF]
   \<and> is_integer (type_of (TAG_Long 0x1234567890ABCDEF))
   \<and> get_block (example_chunk [example_section]) 0 0 0 = Inl AttributeError"
proof -
  have b: "0 \<le> (0::int) \<and> (0::int) \<le> 15 \<and> 0 \<le> (0::int) \<and> (0::int) \<le> 255 \<and> 0 \<le> (0::int) \<and> (0::int) \<le> 15"
    by simp
  have f: "find_section [example_section] (0 div 16) = Inr (Some example_section)"
    by (simp add: find_section_Cons [OF example_section_items(1)] del: find_section.simps)
  have l: "py_len (TAG_List [named_block ''minecraft:air'', named_block ''minecraft:stone'',
                        named_block ''minecraft:dirt'']) = Inr 3"
    by simp
  have i: "is_integer (type_of (TAG_Long 0x1234567890ABCDEF))"
    by (simp add: is_integer_def)
  have m: "TAG_Long 0x1234567890ABCDEF \<in> set [TAG_Long 0x1234567890ABCDEF]"
    by simp
  have "get_block (example_chunk [example_section]) 0 0 0 = Inl AttributeError"
    using b example_chunk_Sections f example_section_items(2) l _ example_section_items(3) _ m
  proof (rule get_block_print_raises)
    show "(3::nat) < 2 ^ 64"
      by simp
    show "items (TAG_Long_Array [TAG_Long 0x1234567890ABCDEF]) = Some [TAG_Long 0x1234567890ABCDEF]"
      by simp
    show "is_integer (type_of (TAG_Long 0x1234567890ABCDEF))
        \<or> is_decimal (type_of (TAG_Long 0x1234567890ABCDEF))"
      using i by blast
  qed
  with example_chunk_Sections [of "[example_section]"] f example_section_items(2,3) l m i
  show ?thesis
    by blast
qed




end
